theory Spec2Isabelle
  imports Main
begin

section \<open>The skip list of skiplist.c as a heap program\<close>

text \<open>
  The C program is a pointer structure: elements are allocated with malloc, linked through
  per-level forward arrays, and released with free. The model keeps that shape. A heap maps
  addresses to elements, a pointer is an optional address (\<open>None\<close> is NULL), the arrays
  of an element are lists, and every dereference that C leaves undefined (NULL, a released
  element, an index outside an array, an uninitialised local) is a fault value of the model.
  The C type int is modelled by the unbounded integers: every counter of the program is
  bounded by the number of elements, so wrap-around needs more than \<open>2^31\<close> elements.
  Keys and data are the void pointers of the source: \<open>None\<close> is NULL.
\<close>

definition MAX_LEVEL :: nat where
  "MAX_LEVEL = 20"

type_synonym addr = nat

datatype fault = NullDeref | Dangling | OutOfBounds | Uninitialised

record ('k, 'v) SkipList_element_struct =
  key :: "'k option"
  data :: "'v option"
  height :: nat
  forward :: "addr option list"
  diff :: "int list"

type_synonym ('k, 'v) heap = "addr \<Rightarrow> ('k, 'v) SkipList_element_struct option"

text \<open>
  The process state outside any one container: the heap, the allocation pointer of malloc
  (addresses are handed out in increasing order and never reused) and the static counter
  \<open>Current_Random_Level\<close>.
\<close>

record ('k, 'v) world =
  heap :: "('k, 'v) heap"
  brk :: addr
  Current_Random_Level :: nat

text \<open>
  The container. The deleter \<open>Member_Delete\<close> is a callback that receives the key and the
  data of a removed element and has no access to the list; it is left out, and so is
  SkipList\_Free, which releases a whole list.
\<close>

record ('k, 'v) SkipList_struct =
  Member_Compare :: "'k option \<Rightarrow> 'k option \<Rightarrow> int"
  header :: addr
  finger :: "addr list"
  distance :: "int list"
  level :: nat
  length_sl :: int

text \<open>
  A result is \<open>None\<close> when a while loop never ends, \<open>Some (Inl e)\<close> when the program
  faults, and \<open>Some (Inr x)\<close> when it returns \<open>x\<close>.
\<close>

type_synonym 'a res = "(fault + 'a) option"

definition bnd :: "'a res \<Rightarrow> ('a \<Rightarrow> 'b res) \<Rightarrow> 'b res" where
  "bnd m f = (case m of None \<Rightarrow> None | Some (Inl e) \<Rightarrow> Some (Inl e) | Some (Inr x) \<Rightarrow> f x)"

definition ret :: "'a \<Rightarrow> 'a res" where
  "ret x = Some (Inr x)"

subsection \<open>Memory accesses\<close>

definition idx :: "'a list \<Rightarrow> nat \<Rightarrow> fault + 'a" where
  "idx xs i = (if i < length xs then Inr (xs ! i) else Inl OutOfBounds)"

definition upd :: "'a list \<Rightarrow> nat \<Rightarrow> 'a \<Rightarrow> fault + 'a list" where
  "upd xs i v = (if i < length xs then Inr (xs[i := v]) else Inl OutOfBounds)"

text \<open>Reading a local array entry that was never assigned.\<close>

definition ini :: "'a option list \<Rightarrow> nat \<Rightarrow> fault + 'a" where
  "ini xs i = (if i < length xs
     then (case xs ! i of None \<Rightarrow> Inl Uninitialised | Some v \<Rightarrow> Inr v)
     else Inl OutOfBounds)"

definition node_at :: "('k, 'v) heap \<Rightarrow> addr \<Rightarrow> fault + ('k, 'v) SkipList_element_struct" where
  "node_at h a = (case h a of None \<Rightarrow> Inl Dangling | Some e \<Rightarrow> Inr e)"

definition deref :: "('k, 'v) heap \<Rightarrow> addr option \<Rightarrow> fault + ('k, 'v) SkipList_element_struct" where
  "deref h p = (case p of None \<Rightarrow> Inl NullDeref | Some a \<Rightarrow> node_at h a)"

definition key_at :: "('k, 'v) heap \<Rightarrow> addr \<Rightarrow> fault + 'k option" where
  "key_at h a = (case node_at h a of Inl e \<Rightarrow> Inl e | Inr x \<Rightarrow> Inr (key x))"

definition forward_at :: "('k, 'v) heap \<Rightarrow> addr \<Rightarrow> nat \<Rightarrow> fault + addr option" where
  "forward_at h a i = (case node_at h a of Inl e \<Rightarrow> Inl e | Inr x \<Rightarrow> idx (forward x) i)"

definition diff_at :: "('k, 'v) heap \<Rightarrow> addr \<Rightarrow> nat \<Rightarrow> fault + int" where
  "diff_at h a i = (case node_at h a of Inl e \<Rightarrow> Inl e | Inr x \<Rightarrow> idx (diff x) i)"

definition set_forward :: "('k, 'v) heap \<Rightarrow> addr \<Rightarrow> nat \<Rightarrow> addr option \<Rightarrow> fault + ('k, 'v) heap" where
  "set_forward h a i p = (case node_at h a of Inl e \<Rightarrow> Inl e
     | Inr x \<Rightarrow> (case upd (forward x) i p of Inl e \<Rightarrow> Inl e
         | Inr fs \<Rightarrow> Inr (h(a \<mapsto> x\<lparr>forward := fs\<rparr>))))"

definition set_diff :: "('k, 'v) heap \<Rightarrow> addr \<Rightarrow> nat \<Rightarrow> int \<Rightarrow> fault + ('k, 'v) heap" where
  "set_diff h a i v = (case node_at h a of Inl e \<Rightarrow> Inl e
     | Inr x \<Rightarrow> (case upd (diff x) i v of Inl e \<Rightarrow> Inl e
         | Inr ds \<Rightarrow> Inr (h(a \<mapsto> x\<lparr>diff := ds\<rparr>))))"

definition bndE :: "fault + 'a \<Rightarrow> ('a \<Rightarrow> fault + 'b) \<Rightarrow> fault + 'b" where
  "bndE m f = (case m of Inl e \<Rightarrow> Inl e | Inr x \<Rightarrow> f x)"

text \<open>The loop \<open>for (i = a; i < a + c; i++) body\<close> over a state that may fault.\<close>

fun for_up :: "nat \<Rightarrow> nat \<Rightarrow> (nat \<Rightarrow> 's \<Rightarrow> fault + 's) \<Rightarrow> 's \<Rightarrow> fault + 's" where
  "for_up a 0 body s = Inr s"
| "for_up a (Suc c) body s = bndE (for_up a c body s) (body (a + c))"

subsection \<open>Choose\_Random\_Level\<close>

text \<open>
  The loop \<open>for (i = Current_Random_Level++; (i & 1); i >>= 1) n++\<close> counts the set
  low-order bits of the counter's value before the increment. The counter is a C long that
  starts at 0 and is only incremented; it is modelled by a natural number, which leaves out
  the overflow after as many insertions as a long has values.
\<close>

function Choose_Random_Level_loop :: "nat \<Rightarrow> nat \<Rightarrow> nat" where
  "Choose_Random_Level_loop i n =
     (if odd i then Choose_Random_Level_loop (i div 2) (n + 1) else n)"
  by pat_completeness auto
termination
  by (relation "measure (\<lambda>(i, n). i)") (auto dest: odd_pos)

definition Choose_Random_Level :: "('k, 'v) world \<Rightarrow> nat \<times> ('k, 'v) world" where
  "Choose_Random_Level w =
     (let n = Choose_Random_Level_loop (Current_Random_Level w) 1
      in (if n < MAX_LEVEL then n else MAX_LEVEL,
          w\<lparr>Current_Random_Level := Current_Random_Level w + 1\<rparr>))"

subsection \<open>Search\_by\_Key\<close>

text \<open>
  The inner while loop of Search\_by\_Key at level \<open>current\<close>: it advances \<open>f\<close> while the
  next element exists and its key is less than \<open>k\<close>, adding the spans to \<open>delta[current]\<close>.
\<close>

partial_function (option) Search_by_Key_while ::
  "('k, 'v) heap \<Rightarrow> ('k option \<Rightarrow> 'k option \<Rightarrow> int) \<Rightarrow> 'k option \<Rightarrow> nat \<Rightarrow> addr \<Rightarrow> int
     \<Rightarrow> (addr \<times> int) res" where
  "Search_by_Key_while h cmp k current f dl =
     (case forward_at h f current of Inl e \<Rightarrow> Some (Inl e)
      | Inr None \<Rightarrow> Some (Inr (f, dl))
      | Inr (Some g) \<Rightarrow>
          (case key_at h g of Inl e \<Rightarrow> Some (Inl e)
           | Inr kg \<Rightarrow>
               if cmp k kg > 0
               then (case diff_at h f current of Inl e \<Rightarrow> Some (Inl e)
                     | Inr df \<Rightarrow> Search_by_Key_while h cmp k current g (dl + df))
               else Some (Inr (f, dl))))"

declare Search_by_Key_while.simps [code]

text \<open>
  The choice of the starting point at one level: the cached finger when its key is not
  NULL and is less than \<open>k\<close>, the position reached at the level above otherwise.
\<close>

definition Search_by_Key_start ::
  "('k, 'v) heap \<Rightarrow> ('k, 'v) SkipList_struct \<Rightarrow> 'k option \<Rightarrow> nat \<Rightarrow> addr \<Rightarrow> int
     \<Rightarrow> fault + (addr \<times> int)" where
  "Search_by_Key_start h sl k current f lst =
     bndE (idx (finger sl) current) (\<lambda>c.
     bndE (key_at h c) (\<lambda>kc.
       if kc \<noteq> None \<and> Member_Compare sl k kc > 0
       then bndE (idx (distance sl) current) (\<lambda>dc. Inr (c, dc))
       else Inr (f, lst)))"

text \<open>
  The state of the outer loop: the container (for its cache), the local finger and delta
  arrays, \<open>f\<close> and \<open>last\<close> (here \<open>lst\<close>). The first argument counts the levels still to visit, so
  \<open>Suc current\<close> runs the body at level \<open>current\<close> and goes on below it.
\<close>

fun Search_by_Key_for ::
  "('k, 'v) heap \<Rightarrow> 'k option \<Rightarrow> nat
     \<Rightarrow> ('k, 'v) SkipList_struct \<times> addr option list \<times> int option list \<times> addr \<times> int
     \<Rightarrow> (('k, 'v) SkipList_struct \<times> addr option list \<times> int option list \<times> addr \<times> int) res" where
  "Search_by_Key_for h k 0 st = ret st"
| "Search_by_Key_for h k (Suc current) (sl, fg, dl, f, lst) =
     bnd (Some (Search_by_Key_start h sl k current f lst)) (\<lambda>(f1, d1).
     bnd (Search_by_Key_while h (Member_Compare sl) k current f1 d1) (\<lambda>(f2, d2).
     bnd (Some (upd (finger sl) current f2)) (\<lambda>sf.
     bnd (Some (upd fg current (Some f2))) (\<lambda>fg'.
     bnd (Some (upd (distance sl) current d2)) (\<lambda>sd.
     bnd (Some (upd dl current (Some d2))) (\<lambda>dl'.
       Search_by_Key_for h k current
         (sl\<lparr>finger := sf, distance := sd\<rparr>, fg', dl', f2, d2)))))))"

definition Search_by_Key ::
  "('k, 'v) heap \<Rightarrow> ('k, 'v) SkipList_struct \<Rightarrow> 'k option
     \<Rightarrow> (('k, 'v) SkipList_struct \<times> addr option list \<times> int option list) res" where
  "Search_by_Key h sl k =
     bnd (Search_by_Key_for h k (level sl)
            (sl, replicate MAX_LEVEL None, replicate MAX_LEVEL None, header sl, 0))
       (\<lambda>(sl', fg, dl, f, lst). ret (sl', fg, dl))"

subsection \<open>Search\_by\_Index\<close>

partial_function (option) Search_by_Index_while ::
  "('k, 'v) heap \<Rightarrow> int \<Rightarrow> nat \<Rightarrow> addr \<Rightarrow> int \<Rightarrow> (addr \<times> int) res" where
  "Search_by_Index_while h n current f place =
     (case forward_at h f current of Inl e \<Rightarrow> Some (Inl e)
      | Inr None \<Rightarrow> Some (Inr (f, place))
      | Inr (Some g) \<Rightarrow>
          (case diff_at h f current of Inl e \<Rightarrow> Some (Inl e)
           | Inr df \<Rightarrow>
               if df + place < n
               then Search_by_Index_while h n current g (place + df)
               else Some (Inr (f, place))))"

declare Search_by_Index_while.simps [code]

definition Search_by_Index_start ::
  "('k, 'v) SkipList_struct \<Rightarrow> int \<Rightarrow> nat \<Rightarrow> addr \<Rightarrow> int \<Rightarrow> fault + (addr \<times> int)" where
  "Search_by_Index_start sl n current f place =
     bndE (idx (distance sl) current) (\<lambda>dc.
       if dc < n
       then bndE (idx (finger sl) current) (\<lambda>c. Inr (c, dc))
       else Inr (f, place))"

fun Search_by_Index_for ::
  "('k, 'v) heap \<Rightarrow> int \<Rightarrow> nat
     \<Rightarrow> ('k, 'v) SkipList_struct \<times> addr option list \<times> addr \<times> int
     \<Rightarrow> (('k, 'v) SkipList_struct \<times> addr option list \<times> addr \<times> int) res" where
  "Search_by_Index_for h n 0 st = ret st"
| "Search_by_Index_for h n (Suc current) (sl, fg, f, place) =
     bnd (Some (Search_by_Index_start sl n current f place)) (\<lambda>(f1, p1).
     bnd (Search_by_Index_while h n current f1 p1) (\<lambda>(f2, p2).
     bnd (Some (upd (finger sl) current f2)) (\<lambda>sf.
     bnd (Some (upd fg current (Some f2))) (\<lambda>fg'.
     bnd (Some (upd (distance sl) current p2)) (\<lambda>sd.
       Search_by_Index_for h n current
         (sl\<lparr>finger := sf, distance := sd\<rparr>, fg', f2, p2))))))"

definition Search_by_Index ::
  "('k, 'v) heap \<Rightarrow> ('k, 'v) SkipList_struct \<Rightarrow> int
     \<Rightarrow> (('k, 'v) SkipList_struct \<times> addr option list \<times> bool) res" where
  "Search_by_Index h sl n =
     bnd (Search_by_Index_for h n (level sl)
            (sl, replicate MAX_LEVEL None, header sl, 0))
       (\<lambda>(sl', fg, f, place). ret (sl', fg, n - place = 1))"

subsection \<open>MakeNode and SkipList\_Create\<close>

text \<open>
  MakeNode leaves the forward array as malloc returned it; the model fills it with NULL.
  Every caller assigns each entry before reading it.
\<close>

definition MakeNode ::
  "('k, 'v) world \<Rightarrow> nat \<Rightarrow> 'k option \<Rightarrow> 'v option \<Rightarrow> addr \<times> ('k, 'v) world" where
  "MakeNode w newLevel k d =
     (brk w,
      w\<lparr>heap := (heap w)(brk w \<mapsto>
           \<lparr>key = k, data = d, height = newLevel,
            forward = replicate newLevel None, diff = replicate newLevel 0\<rparr>),
        brk := Suc (brk w)\<rparr>)"

definition SkipList_Create ::
  "('k, 'v) world \<Rightarrow> ('k option \<Rightarrow> 'k option \<Rightarrow> int)
     \<Rightarrow> ('k, 'v) world \<times> ('k, 'v) SkipList_struct" where
  "SkipList_Create w c =
     (let (hdr, w1) = MakeNode w MAX_LEVEL None None;
          x = \<lparr>key = None, data = None, height = MAX_LEVEL,
               forward = replicate MAX_LEVEL None, diff = replicate MAX_LEVEL 1\<rparr>
      in (w1\<lparr>heap := (heap w1)(hdr \<mapsto> x)\<rparr>,
          \<lparr>Member_Compare = c, header = hdr, finger = replicate MAX_LEVEL hdr,
           distance = replicate MAX_LEVEL 1, level = 1, length_sl = 0\<rparr>))"

subsection \<open>SkipList\_Iterate, SkipList\_Search, SkipList\_Length\<close>

text \<open>The iterator's calls, in order: the list of the pairs it is applied to.\<close>

partial_function (option) SkipList_Iterate_while ::
  "('k, 'v) heap \<Rightarrow> addr \<Rightarrow> ('k option \<times> 'v option) list
     \<Rightarrow> (('k option \<times> 'v option) list) res" where
  "SkipList_Iterate_while h f acc =
     (case forward_at h f 0 of Inl e \<Rightarrow> Some (Inl e)
      | Inr None \<Rightarrow> Some (Inr acc)
      | Inr (Some g) \<Rightarrow>
          (case node_at h g of Inl e \<Rightarrow> Some (Inl e)
           | Inr x \<Rightarrow> SkipList_Iterate_while h g (acc @ [(key x, data x)])))"

declare SkipList_Iterate_while.simps [code]

definition SkipList_Iterate ::
  "('k, 'v) world \<Rightarrow> ('k, 'v) SkipList_struct \<Rightarrow> (('k option \<times> 'v option) list) res" where
  "SkipList_Iterate w sl = SkipList_Iterate_while (heap w) (header sl) []"

definition SkipList_Search ::
  "('k, 'v) world \<Rightarrow> ('k, 'v) SkipList_struct \<Rightarrow> 'k option
     \<Rightarrow> (('k, 'v) SkipList_struct \<times> 'v option) res" where
  "SkipList_Search w sl k =
     bnd (Search_by_Key (heap w) sl k) (\<lambda>(sl', f, d).
     bnd (Some (ini f 0)) (\<lambda>f0.
     bnd (Some (forward_at (heap w) f0 0)) (\<lambda>p.
       case p of None \<Rightarrow> ret (sl', None)
       | Some n \<Rightarrow>
           bnd (Some (node_at (heap w) n)) (\<lambda>x.
             if Member_Compare sl' k (key x) \<noteq> 0 then ret (sl', None)
             else ret (sl', data x)))))"

definition SkipList_Length :: "('k, 'v) SkipList_struct \<Rightarrow> int" where
  "SkipList_Length sl = length_sl sl"

subsection \<open>SkipList\_Insert\<close>

text \<open>
  The loops of SkipList\_Insert, each over the heap and the local arrays \<open>u\<close> and \<open>d\<close>.
\<close>

definition Insert_grow_body ::
  "('k, 'v) SkipList_struct \<Rightarrow> nat
     \<Rightarrow> ('k, 'v) heap \<times> addr option list \<times> int option list
     \<Rightarrow> fault + (('k, 'v) heap \<times> addr option list \<times> int option list)" where
  "Insert_grow_body sl i = (\<lambda>(h, u, d).
     bndE (upd u i (Some (header sl))) (\<lambda>u'.
     bndE (upd d i (Some 0)) (\<lambda>d'.
     bndE (ini u' i) (\<lambda>ui.
     bndE (set_diff h ui i (length_sl sl + 1)) (\<lambda>h'.
       Inr (h', u', d'))))))"

definition Insert_diff_body ::
  "addr \<Rightarrow> addr option list \<Rightarrow> int option list \<Rightarrow> nat
     \<Rightarrow> ('k, 'v) heap \<Rightarrow> fault + ('k, 'v) heap" where
  "Insert_diff_body n u d i h =
     bndE (ini u i) (\<lambda>ui.
     bndE (diff_at h ui i) (\<lambda>udiff.
     bndE (ini d 0) (\<lambda>d0.
     bndE (ini d i) (\<lambda>di.
     bndE (set_diff h n i (udiff - d0 + di)) (\<lambda>h1.
       set_diff h1 ui i (d0 - di + 1))))))"

definition Insert_incr_body ::
  "addr option list \<Rightarrow> nat \<Rightarrow> ('k, 'v) heap \<Rightarrow> fault + ('k, 'v) heap" where
  "Insert_incr_body u i h =
     bndE (ini u i) (\<lambda>ui.
     bndE (diff_at h ui i) (\<lambda>udiff.
       set_diff h ui i (udiff + 1)))"

definition Insert_link_body ::
  "addr \<Rightarrow> addr option list \<Rightarrow> nat \<Rightarrow> ('k, 'v) heap \<Rightarrow> fault + ('k, 'v) heap" where
  "Insert_link_body n u i h =
     bndE (ini u i) (\<lambda>ui.
     bndE (forward_at h ui i) (\<lambda>p.
     bndE (set_forward h n i p) (\<lambda>h1.
       set_forward h1 ui i (Some n))))"

text \<open>The block \<open>if (nl > sl->level) { for (i = sl->level; i < nl; i++) ...; sl->level = nl; }\<close>.\<close>

definition Insert_grow ::
  "('k, 'v) SkipList_struct \<Rightarrow> nat \<Rightarrow> ('k, 'v) heap \<Rightarrow> addr option list \<Rightarrow> int option list
     \<Rightarrow> fault + (('k, 'v) heap \<times> addr option list \<times> int option list
                 \<times> ('k, 'v) SkipList_struct)" where
  "Insert_grow sl nl h u d =
     (if nl > level sl
      then bndE (for_up (level sl) (nl - level sl) (Insert_grow_body sl) (h, u, d))
             (\<lambda>(h', u', d'). Inr (h', u', d', sl\<lparr>level := nl\<rparr>))
      else Inr (h, u, d, sl))"

definition SkipList_Insert ::
  "('k, 'v) world \<Rightarrow> ('k, 'v) SkipList_struct \<Rightarrow> 'k option \<Rightarrow> 'v option
     \<Rightarrow> (('k, 'v) world \<times> ('k, 'v) SkipList_struct) res" where
  "SkipList_Insert w sl k m =
     bnd (Search_by_Key (heap w) sl k) (\<lambda>(sl1, u, d).
     bnd (Some (ini u 0)) (\<lambda>u0.
     bnd (Some (forward_at (heap w) u0 0)) (\<lambda>n0.
       let (nl, w1) = Choose_Random_Level w
       in bnd (Some (Insert_grow sl1 nl (heap w1) u d)) (\<lambda>(h2, u2, d2, sl2).
          let (n, w3) = MakeNode (w1\<lparr>heap := h2\<rparr>) nl k m
          in bnd (Some (for_up 0 nl (Insert_diff_body n u2 d2) (heap w3))) (\<lambda>h4.
             bnd (Some (for_up nl (level sl2 - nl) (Insert_incr_body u2) h4)) (\<lambda>h5.
             bnd (Some (for_up 0 nl (Insert_link_body n u2) h5)) (\<lambda>h6.
               ret (w3\<lparr>heap := h6\<rparr>, sl2\<lparr>length_sl := length_sl sl2 + 1\<rparr>))))))))"

subsection \<open>SkipList\_Delete\<close>

definition Delete_unlink_body ::
  "addr \<Rightarrow> addr option list \<Rightarrow> nat \<Rightarrow> ('k, 'v) heap \<Rightarrow> fault + ('k, 'v) heap" where
  "Delete_unlink_body n u i h =
     bndE (ini u i) (\<lambda>ui.
     bndE (forward_at h ui i) (\<lambda>p.
       if p \<noteq> Some n
       then bndE (diff_at h ui i) (\<lambda>udiff. set_diff h ui i (udiff - 1))
       else bndE (diff_at h ui i) (\<lambda>udiff.
            bndE (diff_at h n i) (\<lambda>ndiff.
            bndE (set_diff h ui i (udiff + (ndiff - 1))) (\<lambda>h1.
            bndE (forward_at h1 n i) (\<lambda>q.
              set_forward h1 ui i q))))))"

text \<open>
  The loop \<open>while ((sl->level > 1) && (sl->header->forward[sl->level-1] == NULL)) sl->level--\<close>,
  by recursion on the level.
\<close>

fun Delete_shrink :: "('k, 'v) heap \<Rightarrow> addr \<Rightarrow> nat \<Rightarrow> fault + nat" where
  "Delete_shrink h hdr 0 = Inr 0"
| "Delete_shrink h hdr (Suc l) =
     (if Suc l > 1
      then bndE (forward_at h hdr l) (\<lambda>p.
             if p = None then Delete_shrink h hdr l else Inr (Suc l))
      else Inr (Suc l))"

definition SkipList_Delete ::
  "('k, 'v) world \<Rightarrow> ('k, 'v) SkipList_struct \<Rightarrow> 'k option
     \<Rightarrow> (('k, 'v) world \<times> ('k, 'v) SkipList_struct \<times> int) res" where
  "SkipList_Delete w sl k =
     bnd (Search_by_Key (heap w) sl k) (\<lambda>(sl1, u, delta).
     bnd (Some (ini u 0)) (\<lambda>u0.
     bnd (Some (forward_at (heap w) u0 0)) (\<lambda>p.
     bnd (Some (case p of None \<Rightarrow> Inr False
                | Some n \<Rightarrow> bndE (key_at (heap w) n) (\<lambda>kn.
                    Inr (Member_Compare sl1 kn k = 0)))) (\<lambda>hit.
       if hit
       then (case p of None \<Rightarrow> Some (Inl NullDeref)
             | Some n \<Rightarrow>
                 bnd (Some (for_up 0 (level sl1) (Delete_unlink_body n u) (heap w))) (\<lambda>h1.
                 bnd (Some (node_at h1 n)) (\<lambda>x.
                   let h2 = h1(n := None);
                       sl2 = sl1\<lparr>length_sl := length_sl sl1 - 1\<rparr>
                   in bnd (Some (forward_at h2 u0 0)) (\<lambda>n'.
                      bnd (Some (Delete_shrink h2 (header sl2) (level sl2))) (\<lambda>l.
                        ret (w\<lparr>heap := h2\<rparr>, sl2\<lparr>level := l\<rparr>, 1))))))
       else ret (w, sl1, 0)))))"

subsection \<open>Access by rank\<close>

definition SkipList_Indexed_Key ::
  "('k, 'v) world \<Rightarrow> ('k, 'v) SkipList_struct \<Rightarrow> int
     \<Rightarrow> (('k, 'v) SkipList_struct \<times> 'k option) res" where
  "SkipList_Indexed_Key w sl n =
     bnd (Search_by_Index (heap w) sl n) (\<lambda>(sl', f, found).
       if found
       then bnd (Some (ini f 0)) (\<lambda>f0.
            bnd (Some (forward_at (heap w) f0 0)) (\<lambda>p.
            bnd (Some (deref (heap w) p)) (\<lambda>x. ret (sl', key x))))
       else ret (sl', None))"

definition SkipList_Indexed_Member ::
  "('k, 'v) world \<Rightarrow> ('k, 'v) SkipList_struct \<Rightarrow> int
     \<Rightarrow> (('k, 'v) SkipList_struct \<times> 'v option) res" where
  "SkipList_Indexed_Member w sl n =
     bnd (Search_by_Index (heap w) sl n) (\<lambda>(sl', f, found).
       if found
       then bnd (Some (ini f 0)) (\<lambda>f0.
            bnd (Some (forward_at (heap w) f0 0)) (\<lambda>p.
            bnd (Some (deref (heap w) p)) (\<lambda>x. ret (sl', data x))))
       else ret (sl', None))"

definition SkipList_Indexed_Update ::
  "('k, 'v) world \<Rightarrow> ('k, 'v) SkipList_struct \<Rightarrow> int \<Rightarrow> 'v option
     \<Rightarrow> (('k, 'v) world \<times> ('k, 'v) SkipList_struct) res" where
  "SkipList_Indexed_Update w sl n d =
     bnd (Search_by_Index (heap w) sl n) (\<lambda>(sl', f, found).
       if found
       then bnd (Some (ini f 0)) (\<lambda>f0.
            bnd (Some (forward_at (heap w) f0 0)) (\<lambda>p.
            bnd (Some (deref (heap w) p)) (\<lambda>x.
              case p of None \<Rightarrow> Some (Inl NullDeref)
              | Some a \<Rightarrow> ret (w\<lparr>heap := (heap w)(a \<mapsto> x\<lparr>data := d\<rparr>)\<rparr>, sl'))))
       else ret (w, sl'))"

subsection \<open>Sequences of calls\<close>

datatype ('k, 'v) call = Insert "'k option" "'v option" | Delete "'k option"

fun calls ::
  "('k, 'v) world \<times> ('k, 'v) SkipList_struct \<Rightarrow> ('k, 'v) call list
     \<Rightarrow> (('k, 'v) world \<times> ('k, 'v) SkipList_struct) res" where
  "calls st [] = ret st"
| "calls (w, sl) (Insert k m # cs) =
     bnd (SkipList_Insert w sl k m) (\<lambda>st. calls st cs)"
| "calls (w, sl) (Delete k # cs) =
     bnd (SkipList_Delete w sl k) (\<lambda>(w', sl', d). calls (w', sl') cs)"

text \<open>
  The comparator of the examples: integers in ascending order, NULL below every integer.
  It returns -1, 0 or 1 as skiplist.h asks.
\<close>

definition int_compare :: "int option \<Rightarrow> int option \<Rightarrow> int" where
  "int_compare a b =
     (case a of
        None \<Rightarrow> (case b of None \<Rightarrow> 0 | Some y \<Rightarrow> - 1)
      | Some x \<Rightarrow> (case b of None \<Rightarrow> 1
                   | Some y \<Rightarrow> if x < y then - 1 else if x = y then 0 else 1))"

text \<open>A fresh process: nothing allocated, the static counter at its initial value 0.\<close>

definition world0 :: "(int, int) world" where
  "world0 = \<lparr>heap = Map.empty, brk = 0, Current_Random_Level = 0\<rparr>"

text \<open>
  The search by rank as the cache-free ladder: at each level the walk goes on from where
  the level above stopped, and nothing is read from or written to the container's cache.
\<close>

fun Search_by_Index_nocache_for ::
  "('k, 'v) heap \<Rightarrow> int \<Rightarrow> nat \<Rightarrow> addr option list \<times> addr \<times> int
     \<Rightarrow> (addr option list \<times> addr \<times> int) res" where
  "Search_by_Index_nocache_for h n 0 st = ret st"
| "Search_by_Index_nocache_for h n (Suc current) (fg, f, place) =
     bnd (Search_by_Index_while h n current f place) (\<lambda>(f2, p2).
     bnd (Some (upd fg current (Some f2))) (\<lambda>fg'.
       Search_by_Index_nocache_for h n current (fg', f2, p2)))"

definition Search_by_Index_nocache ::
  "('k, 'v) heap \<Rightarrow> ('k, 'v) SkipList_struct \<Rightarrow> int \<Rightarrow> (addr option list \<times> bool) res" where
  "Search_by_Index_nocache h sl n =
     bnd (Search_by_Index_nocache_for h n (level sl)
            (replicate MAX_LEVEL None, header sl, 0))
       (\<lambda>(fg, f, place). ret (fg, n - place = 1))"

section \<open>The invariant of the list structure\<close>

text \<open>
  The properties of the operations are proved from an invariant that relates the heap to the
  list of the addresses of the elements in list order. The definitions of this section state
  the invariant and the observations the properties are about; none of them is part of the
  program.
\<close>

text \<open>
  The elements of a list are described by positions: a list \<open>M\<close> of addresses holds the
  header at position 0 and then the elements in list order, and \<open>hs\<close> is the list of their
  numbers of levels. \<open>nxt hs i j\<close> is the first position after \<open>j\<close> whose element has more
  than \<open>i\<close> levels, and the length of the list when there is none: the position the
  level-\<open>i\<close> forward pointer of the element at \<open>j\<close> leads to.
\<close>

definition nxt :: "nat list \<Rightarrow> nat \<Rightarrow> nat \<Rightarrow> nat" where
  "nxt hs i j = Suc j + length (takeWhile (\<lambda>x. x \<le> i) (drop (Suc j) hs))"

text \<open>
  \<open>pred_pos hs i p\<close> is the last position before \<open>p\<close> whose element has more than \<open>i\<close>
  levels, the header's position 0 when there is none: where a search that stops in front of
  position \<open>p\<close> stands at level \<open>i\<close>.
\<close>

fun pred_pos :: "nat list \<Rightarrow> nat \<Rightarrow> nat \<Rightarrow> nat" where
  "pred_pos hs i 0 = 0"
| "pred_pos hs i (Suc p) = (if i < hs ! p then p else pred_pos hs i p)"

text \<open>
  The comparator contract of skiplist.h, an ordering of the keys: a key is equal to itself,
  the sign of the result flips when the arguments are swapped, and the order is transitive.
\<close>

definition comparator_ok :: "('k option \<Rightarrow> 'k option \<Rightarrow> int) \<Rightarrow> bool" where
  "comparator_ok cmp \<longleftrightarrow>
     (\<forall>a. cmp a a = 0) \<and>
     (\<forall>a b. (0 < cmp a b) = (cmp b a < 0)) \<and>
     (\<forall>a b c. cmp a b \<le> 0 \<and> cmp b c \<le> 0 \<longrightarrow> cmp a c \<le> 0)"

text \<open>
  The fields of the element stored at an address. The number of levels of an element is the
  length of its forward array.
\<close>

definition fwd :: "('k, 'v) heap \<Rightarrow> addr \<Rightarrow> nat \<Rightarrow> addr option" where
  "fwd h a i = forward (the (h a)) ! i"

definition dif :: "('k, 'v) heap \<Rightarrow> addr \<Rightarrow> nat \<Rightarrow> int" where
  "dif h a i = diff (the (h a)) ! i"

definition lv :: "('k, 'v) heap \<Rightarrow> addr \<Rightarrow> nat" where
  "lv h a = length (forward (the (h a)))"

definition keyof :: "('k, 'v) heap \<Rightarrow> addr \<Rightarrow> 'k option" where
  "keyof h a = key (the (h a))"

definition dataof :: "('k, 'v) heap \<Rightarrow> addr \<Rightarrow> 'v option" where
  "dataof h a = data (the (h a))"

text \<open>An allocated element whose two arrays have the same length.\<close>

definition node_ok :: "('k, 'v) heap \<Rightarrow> addr \<Rightarrow> bool" where
  "node_ok h a \<longleftrightarrow> h a \<noteq> None \<and> length (diff (the (h a))) = lv h a"

text \<open>
  Every level-\<open>i\<close> forward pointer leads to the next element with more than \<open>i\<close> levels, and
  is NULL when there is none.
\<close>

definition links :: "('k, 'v) heap \<Rightarrow> addr list \<Rightarrow> bool" where
  "links h M \<longleftrightarrow>
     (\<forall>j < length M. \<forall>i < lv h (M ! j).
        fwd h (M ! j) i =
          (if nxt (map (lv h) M) i j < length M then Some (M ! nxt (map (lv h) M) i j) else None))"

text \<open>The keys of the elements, the header apart, are in non-decreasing order.\<close>

definition keys_sorted ::
  "('k option \<Rightarrow> 'k option \<Rightarrow> int) \<Rightarrow> ('k, 'v) heap \<Rightarrow> addr list \<Rightarrow> bool" where
  "keys_sorted cmp h M \<longleftrightarrow>
     (\<forall>j1 j2. 0 < j1 \<and> j1 < j2 \<and> j2 < length M \<longrightarrow> cmp (keyof h (M ! j1)) (keyof h (M ! j2)) \<le> 0)"

text \<open>
  The list structure: the header and the elements are distinct allocated elements, the header
  has MAX\_LEVEL levels and the key NULL, every element has at least one level, the forward
  pointers are the chains of the levels, and the keys are sorted.
\<close>

definition heap_shape ::
  "('k option \<Rightarrow> 'k option \<Rightarrow> int) \<Rightarrow> ('k, 'v) heap \<Rightarrow> addr list \<Rightarrow> bool" where
  "heap_shape cmp h M \<longleftrightarrow>
     M \<noteq> [] \<and> distinct M \<and>
     (\<forall>a \<in> set M. node_ok h a) \<and>
     lv h (M ! 0) = MAX_LEVEL \<and> keyof h (M ! 0) = None \<and>
     (\<forall>j. 0 < j \<and> j < length M \<longrightarrow> 1 \<le> lv h (M ! j)) \<and>
     links h M \<and>
     keys_sorted cmp h M"

text \<open>
  The spans: on every level in use, \<open>diff[i]\<close> of an element is the distance in positions
  to the next element of the level-\<open>i\<close> chain, and to one past the last element when there
  is none.
\<close>

definition spans :: "('k, 'v) heap \<Rightarrow> addr list \<Rightarrow> nat \<Rightarrow> bool" where
  "spans h M L \<longleftrightarrow>
     (\<forall>j < length M. \<forall>i. i < lv h (M ! j) \<and> i < L \<longrightarrow>
        dif h (M ! j) i = int (nxt (map (lv h) M) i j) - int j)"

text \<open>
  The position in front of which a search for \<open>k\<close> stops: the first position whose key is
  not strictly less than \<open>k\<close>, one past the last element when there is none.
\<close>

definition ins_pos ::
  "('k option \<Rightarrow> 'k option \<Rightarrow> int) \<Rightarrow> ('k, 'v) heap \<Rightarrow> 'k option \<Rightarrow> addr list \<Rightarrow> nat" where
  "ins_pos cmp h k M = Suc (length (takeWhile (\<lambda>a. 0 < cmp k (keyof h a)) (tl M)))"

text \<open>
  The cache of the last search: both arrays have MAX\_LEVEL entries, and \<open>finger[i]\<close> is an
  element of the list (or the header) with more than \<open>i\<close> levels.
\<close>

definition cache_shape :: "('k, 'v) heap \<Rightarrow> ('k, 'v) SkipList_struct \<Rightarrow> addr list \<Rightarrow> bool" where
  "cache_shape h sl M \<longleftrightarrow>
     length (finger sl) = MAX_LEVEL \<and> length (distance sl) = MAX_LEVEL \<and>
     (\<forall>i < MAX_LEVEL. \<exists>c < length M. finger sl ! i = M ! c \<and> i < lv h (M ! c))"

text \<open>
  A cached finger other than the header is cached together with its position. The header is
  left out: SkipList\_Create caches it with the distance 1.
\<close>

definition cache_ranked :: "('k, 'v) SkipList_struct \<Rightarrow> addr list \<Rightarrow> bool" where
  "cache_ranked sl M \<longleftrightarrow>
     (\<forall>i < MAX_LEVEL. \<forall>c. 0 < c \<and> c < length M \<and> finger sl ! i = M ! c \<longrightarrow>
        distance sl ! i = int c)"

text \<open>
  Two heaps with the same allocated elements, the same array lengths, keys, data and heights:
  they differ in the contents of the forward and diff arrays only.
\<close>

definition same_nodes :: "('k, 'v) heap \<Rightarrow> ('k, 'v) heap \<Rightarrow> bool" where
  "same_nodes h h' \<longleftrightarrow>
     (\<forall>a. (h' a = None \<longleftrightarrow> h a = None) \<and> lv h' a = lv h a \<and>
          length (diff (the (h' a))) = length (diff (the (h a))) \<and>
          keyof h' a = keyof h a \<and> dataof h' a = dataof h a \<and>
          height (the (h' a)) = height (the (h a)))"

text \<open>The heap after one assignment to a diff entry, and to a forward entry.\<close>

definition put_diff :: "('k, 'v) heap \<Rightarrow> addr \<Rightarrow> nat \<Rightarrow> int \<Rightarrow> ('k, 'v) heap" where
  "put_diff h a i v = h(a \<mapsto> (the (h a))\<lparr>diff := (diff (the (h a)))[i := v]\<rparr>)"

definition put_forward :: "('k, 'v) heap \<Rightarrow> addr \<Rightarrow> nat \<Rightarrow> addr option \<Rightarrow> ('k, 'v) heap" where
  "put_forward h a i p = h(a \<mapsto> (the (h a))\<lparr>forward := (forward (the (h a)))[i := p]\<rparr>)"

text \<open>A list with \<open>x\<close> put in at position \<open>p\<close>, and with position \<open>q\<close> taken out.\<close>

definition ins_at :: "nat \<Rightarrow> 'a \<Rightarrow> 'a list \<Rightarrow> 'a list" where
  "ins_at p x xs = take p xs @ x # drop p xs"

definition del_at :: "nat \<Rightarrow> 'a list \<Rightarrow> 'a list" where
  "del_at q xs = take q xs @ drop (Suc q) xs"

text \<open>
  The structural invariant of a container \<open>sl\<close> in the world \<open>w\<close>, whose elements in list
  order are \<open>N\<close>: the list structure and the cache are well formed, the level is between 1
  and MAX\_LEVEL and bounds the levels of the elements, and nothing is allocated from the
  break on.
\<close>

definition shape :: "('k, 'v) world \<Rightarrow> ('k, 'v) SkipList_struct \<Rightarrow> addr list \<Rightarrow> bool" where
  "shape w sl N \<longleftrightarrow>
     heap_shape (Member_Compare sl) (heap w) (header sl # N) \<and>
     cache_shape (heap w) sl (header sl # N) \<and>
     1 \<le> level sl \<and> level sl \<le> MAX_LEVEL \<and>
     (\<forall>a \<in> set N. lv (heap w) a \<le> level sl) \<and>
     (\<forall>a. brk w \<le> a \<longrightarrow> heap w a = None)"

text \<open>
  The rank invariant: the spans are the distances, the cached distances are the positions of
  the cached fingers, and the length field is the number of elements.
\<close>

definition ranked :: "('k, 'v) world \<Rightarrow> ('k, 'v) SkipList_struct \<Rightarrow> addr list \<Rightarrow> bool" where
  "ranked w sl N \<longleftrightarrow>
     spans (heap w) (header sl # N) (level sl) \<and>
     cache_ranked sl (header sl # N) \<and>
     length_sl sl = int (length N)"

text \<open>A world in which nothing is allocated from the break on.\<close>

definition world_ok :: "('k, 'v) world \<Rightarrow> bool" where
  "world_ok w \<longleftrightarrow> (\<forall>a. brk w \<le> a \<longrightarrow> heap w a = None)"

text \<open>
  The sum of the spans along the level-\<open>i\<close> chain from \<open>a\<close> up to and including the
  predecessor of \<open>y\<close>; \<open>None\<close> when the chain from \<open>a\<close> does not reach \<open>y\<close>.
\<close>

partial_function (option) span_sum ::
  "('k, 'v) heap \<Rightarrow> nat \<Rightarrow> addr \<Rightarrow> addr \<Rightarrow> int \<Rightarrow> int option" where
  "span_sum h i a y acc =
     (if a = y then Some acc
      else (case forward_at h a i of
              Inr (Some b) \<Rightarrow>
                (case diff_at h a i of Inr d \<Rightarrow> span_sum h i b y (acc + d) | Inl e \<Rightarrow> None)
            | _ \<Rightarrow> None))"

declare span_sum.simps [code]

text \<open>The key a call is about.\<close>

definition call_key :: "('k, 'v) call \<Rightarrow> 'k option" where
  "call_key c = (case c of Insert k m \<Rightarrow> k | Delete k \<Rightarrow> k)"

text \<open>
  An element \<open>n\<close> of the list is the target of a search for \<open>k\<close>: its key is \<open>k\<close> and every
  element before it has a smaller key.
\<close>

definition first_with ::
  "('k, 'v) world \<Rightarrow> ('k, 'v) SkipList_struct \<Rightarrow> addr list \<Rightarrow> addr \<Rightarrow> 'k option \<Rightarrow> bool" where
  "first_with w sl N n k \<longleftrightarrow>
     (\<exists>r < length N. N ! r = n \<and> keyof (heap w) n = k \<and>
        (\<forall>j < r. 0 < Member_Compare sl k (keyof (heap w) (N ! j))))"

text \<open>The element reached from \<open>a\<close> by \<open>r\<close> steps along level 0.\<close>

fun element_at :: "('k, 'v) heap \<Rightarrow> addr \<Rightarrow> nat \<Rightarrow> addr option" where
  "element_at h a 0 = Some a"
| "element_at h a (Suc r) =
     (case forward_at h a 0 of Inr (Some b) \<Rightarrow> element_at h b r | _ \<Rightarrow> None)"

text \<open>
  The sum of the spans along level \<open>i\<close> from the header up to and including the predecessor
  of the element of rank \<open>r\<close>, as an observation of a state.
\<close>

definition rank_sum ::
  "nat \<Rightarrow> nat \<Rightarrow> ('k, 'v) world \<times> ('k, 'v) SkipList_struct \<Rightarrow> (int option) res" where
  "rank_sum r i st =
     ret (case element_at (heap (fst st)) (header (snd st)) r of
            None \<Rightarrow> None
          | Some y \<Rightarrow> span_sum (heap (fst st)) i (header (snd st)) y 0)"








text \<open>The result of a search in a state, as an observation.\<close>

definition search_for ::
  "'k option \<Rightarrow> ('k, 'v) world \<times> ('k, 'v) SkipList_struct \<Rightarrow> ('v option) res" where
  "search_for k st = bnd (SkipList_Search (fst st) (snd st) k) (\<lambda>r. ret (snd r))"

section \<open>The operations keep the invariant\<close>

subsection \<open>Positions along a level\<close>

lemma nxt_gt: "j < nxt hs i j"
  by (simp add: nxt_def)

lemma nxt_le: "j < length hs \<Longrightarrow> nxt hs i j \<le> length hs"
proof -
  assume j: "j < length hs"
  have "length (takeWhile (\<lambda>x. x \<le> i) (drop (Suc j) hs)) \<le> length (drop (Suc j) hs)"
    by (rule length_takeWhile_le)
  with j show ?thesis by (simp add: nxt_def)
qed

lemma nxt_between:
  assumes "j < m" and "m < nxt hs i j"
  shows "hs ! m \<le> i"
proof -
  let ?xs = "drop (Suc j) hs"
  let ?t = "m - Suc j"
  have t: "?t < length (takeWhile (\<lambda>x. x \<le> i) ?xs)"
    using assms by (simp add: nxt_def)
  then have "takeWhile (\<lambda>x. x \<le> i) ?xs ! ?t \<in> set (takeWhile (\<lambda>x. x \<le> i) ?xs)"
    by (rule nth_mem)
  then have "takeWhile (\<lambda>x. x \<le> i) ?xs ! ?t \<le> i"
    by (rule set_takeWhileD [THEN conjunct2])
  moreover have "takeWhile (\<lambda>x. x \<le> i) ?xs ! ?t = ?xs ! ?t"
    using t by (rule takeWhile_nth)
  moreover have "?t < length ?xs"
    using t length_takeWhile_le [of "\<lambda>x. x \<le> i" ?xs] by linarith
  ultimately show ?thesis using assms by simp
qed

lemma nxt_hit:
  assumes "nxt hs i j < length hs"
  shows "i < hs ! nxt hs i j"
proof -
  let ?xs = "drop (Suc j) hs"
  have "length (takeWhile (\<lambda>x. x \<le> i) ?xs) < length ?xs"
    using assms by (simp add: nxt_def)
  then have "\<not> (?xs ! length (takeWhile (\<lambda>x. x \<le> i) ?xs) \<le> i)"
    by (rule nth_length_takeWhile)
  moreover have "?xs ! length (takeWhile (\<lambda>x. x \<le> i) ?xs) = hs ! nxt hs i j"
    using assms by (simp add: nxt_def)
  ultimately show ?thesis by simp
qed

lemma nxt_unique:
  assumes "j < j'" and "j' \<le> length hs"
    and btw: "\<And>m. j < m \<Longrightarrow> m < j' \<Longrightarrow> hs ! m \<le> i"
    and hit: "j' < length hs \<Longrightarrow> i < hs ! j'"
  shows "nxt hs i j = j'"
proof (rule ccontr)
  assume ne: "nxt hs i j \<noteq> j'"
  have j: "j < length hs" using assms by simp
  show False
  proof (cases "nxt hs i j < j'")
    case True
    then have "nxt hs i j < length hs" using assms by simp
    then have "i < hs ! nxt hs i j" by (rule nxt_hit)
    moreover have "hs ! nxt hs i j \<le> i" using btw [OF nxt_gt True] .
    ultimately show False by simp
  next
    case False
    then have lt: "j' < nxt hs i j" using ne by simp
    then have "j' < length hs" using nxt_le [OF j, of i] by simp
    then have "i < hs ! j'" by (rule hit)
    moreover have "hs ! j' \<le> i" using nxt_between [OF assms(1) lt] .
    ultimately show False by simp
  qed
qed

lemma pred_pos_char:
  "i < hs ! 0 \<Longrightarrow> 0 < p \<Longrightarrow>
     pred_pos hs i p < p \<and> i < hs ! pred_pos hs i p \<and>
     (\<forall>m. pred_pos hs i p < m \<and> m < p \<longrightarrow> hs ! m \<le> i)"
proof (induction p)
  case 0
  then show ?case by simp
next
  case (Suc p)
  show ?case
  proof (cases "i < hs ! p")
    case True
    then show ?thesis by simp
  next
    case False
    then have "0 < p" using Suc.prems by (cases p) auto
    with Suc have IH: "pred_pos hs i p < p \<and> i < hs ! pred_pos hs i p \<and>
      (\<forall>m. pred_pos hs i p < m \<and> m < p \<longrightarrow> hs ! m \<le> i)" by simp
    show ?thesis using False IH by (auto simp: less_Suc_eq)
  qed
qed

lemma pred_pos_unique:
  "j < p \<Longrightarrow> i < hs ! j \<Longrightarrow> (\<And>m. j < m \<Longrightarrow> m < p \<Longrightarrow> hs ! m \<le> i) \<Longrightarrow> pred_pos hs i p = j"
proof (induction p)
  case 0
  then show ?case by simp
next
  case (Suc p)
  show ?case
  proof (cases "j = p")
    case True
    then show ?thesis using Suc.prems by simp
  next
    case False
    then have jp: "j < p" using Suc.prems by simp
    then have "hs ! p \<le> i" using Suc.prems(3) [of p] by simp
    moreover have "pred_pos hs i p = j"
      using jp Suc.prems(2) Suc.prems(3) by (intro Suc.IH) auto
    ultimately show ?thesis by simp
  qed
qed

subsection \<open>Reading a well-formed heap\<close>

lemma ins_pos_bounds: "M \<noteq> [] \<Longrightarrow> 0 < ins_pos cmp h k M \<and> ins_pos cmp h k M \<le> length M"
proof -
  assume "M \<noteq> []"
  then have "length (tl M) < length M" by simp
  moreover have "length (takeWhile (\<lambda>a. 0 < cmp k (keyof h a)) (tl M)) \<le> length (tl M)"
    by (rule length_takeWhile_le)
  ultimately show ?thesis unfolding ins_pos_def by linarith
qed

lemma ins_pos_less:
  assumes "0 < m" and "m < ins_pos cmp h k M"
  shows "0 < cmp k (keyof h (M ! m))"
proof -
  let ?P = "\<lambda>a. 0 < cmp k (keyof h a)"
  obtain m' where m: "m = Suc m'" using assms(1) by (cases m) auto
  have lt: "m' < length (takeWhile ?P (tl M))" using assms(2) m by (simp add: ins_pos_def)
  then have "takeWhile ?P (tl M) ! m' \<in> set (takeWhile ?P (tl M))" by (rule nth_mem)
  then have "?P (takeWhile ?P (tl M) ! m')" by (rule set_takeWhileD [THEN conjunct2])
  moreover have "takeWhile ?P (tl M) ! m' = tl M ! m'" using lt by (rule takeWhile_nth)
  moreover have "m' < length (tl M)"
    using lt length_takeWhile_le [of ?P "tl M"] by linarith
  then have "tl M ! m' = M ! m" unfolding m by (rule nth_tl)
  ultimately show ?thesis by simp
qed

lemma ins_pos_geq:
  assumes ok: "comparator_ok cmp"
    and srt: "keys_sorted cmp h M"
    and "ins_pos cmp h k M \<le> m" and "m < length M"
  shows "\<not> 0 < cmp k (keyof h (M ! m))"
proof -
  let ?P = "\<lambda>a. 0 < cmp k (keyof h a)"
  let ?t = "length (takeWhile ?P (tl M))"
  have tm: "Suc ?t \<le> m" using assms(3) by (simp add: ins_pos_def)
  have tl: "?t < length (tl M)" using tm assms(4) by simp
  then have "\<not> ?P (tl M ! ?t)" by (rule nth_length_takeWhile)
  moreover have "tl M ! ?t = M ! Suc ?t" using tl by (rule nth_tl)
  ultimately have first: "cmp k (keyof h (M ! Suc ?t)) \<le> 0" by simp
  show ?thesis
  proof (cases "Suc ?t = m")
    case True
    then show ?thesis using first by auto
  next
    case False
    then have "Suc ?t < m" using tm by simp
    then have "cmp (keyof h (M ! Suc ?t)) (keyof h (M ! m)) \<le> 0"
      using srt assms(4) unfolding keys_sorted_def by blast
    with first have "cmp k (keyof h (M ! m)) \<le> 0"
      using ok unfolding comparator_ok_def by blast
    then show ?thesis by simp
  qed
qed

lemma forward_at_ok:
  "node_ok h a \<Longrightarrow> i < lv h a \<Longrightarrow> forward_at h a i = Inr (fwd h a i)"
  by (auto simp: node_ok_def forward_at_def node_at_def idx_def fwd_def lv_def)

lemma diff_at_ok:
  "node_ok h a \<Longrightarrow> i < lv h a \<Longrightarrow> diff_at h a i = Inr (dif h a i)"
  by (auto simp: node_ok_def diff_at_def node_at_def idx_def dif_def lv_def)

lemma key_at_ok:
  "node_ok h a \<Longrightarrow> key_at h a = Inr (keyof h a)"
  by (auto simp: node_ok_def key_at_def node_at_def keyof_def)

lemma node_at_ok:
  "node_ok h a \<Longrightarrow> node_at h a = Inr (the (h a))"
  by (auto simp: node_ok_def node_at_def)

lemma heap_shape_node_ok: "heap_shape cmp h M \<Longrightarrow> j < length M \<Longrightarrow> node_ok h (M ! j)"
  by (simp add: heap_shape_def)

lemma heap_shape_fwd:
  "heap_shape cmp h M \<Longrightarrow> j < length M \<Longrightarrow> i < lv h (M ! j) \<Longrightarrow>
     fwd h (M ! j) i =
       (if nxt (map (lv h) M) i j < length M then Some (M ! nxt (map (lv h) M) i j) else None)"
  unfolding heap_shape_def links_def by blast

text \<open>The inner loop of the search by key, started anywhere before the insertion position.\<close>

lemma Search_by_Key_while_shape:
  assumes ok: "comparator_ok cmp" and hs: "heap_shape cmp h M"
    and p: "p = ins_pos cmp h k M"
  shows "j < p \<Longrightarrow> i < lv h (M ! j) \<Longrightarrow>
     \<exists>d'. Search_by_Key_while h cmp k i (M ! j) d =
       Some (Inr (M ! pred_pos (map (lv h) M) i p, d')) \<and>
       (spans h M (Suc i) \<longrightarrow> d = int j \<longrightarrow>
          d' = int (pred_pos (map (lv h) M) i p))"
proof (induction "length M - j" arbitrary: j d rule: less_induct)
  case less
  let ?hs = "map (lv h) M"
  let ?n = "nxt ?hs i j"
  have Mne: "M \<noteq> []" using hs by (simp add: heap_shape_def)
  have pb: "0 < p" "p \<le> length M" using ins_pos_bounds [OF Mne, of cmp h k] p by simp_all
  have jM: "j < length M" using less.prems pb by simp
  have okj: "node_ok h (M ! j)" using hs jM by (rule heap_shape_node_ok)
  have lk: "fwd h (M ! j) i = (if ?n < length M then Some (M ! ?n) else None)"
    using hs jM less.prems(2) by (rule heap_shape_fwd)
  have hj: "i < ?hs ! j" using less.prems(2) jM by simp
  have stop: "p \<le> ?n \<Longrightarrow> pred_pos ?hs i p = j"
  proof -
    assume pn: "p \<le> ?n"
    show ?thesis
    proof (rule pred_pos_unique)
      show "j < p" by (rule less.prems(1))
      show "i < ?hs ! j" by (rule hj)
      fix m assume "j < m" "m < p"
      then show "?hs ! m \<le> i" using nxt_between [of j m ?hs i] pn by simp
    qed
  qed
  show ?case
  proof (cases "?n < length M")
    case False
    then have "fwd h (M ! j) i = None" using lk by simp
    moreover have "pred_pos ?hs i p = j" using False pb by (intro stop) simp
    ultimately show ?thesis
      using okj less.prems(2)
      by (subst Search_by_Key_while.simps) (simp add: forward_at_ok)
  next
    case True
    then have f: "fwd h (M ! j) i = Some (M ! ?n)" using lk by simp
    have okn: "node_ok h (M ! ?n)" using hs True by (rule heap_shape_node_ok)
    have n0: "0 < ?n" using nxt_gt [of j ?hs i] by simp
    show ?thesis
    proof (cases "?n < p")
      case False
      have srt: "keys_sorted cmp h M" using hs by (simp add: heap_shape_def)
      have "ins_pos cmp h k M \<le> ?n" using False p by simp
      then have "\<not> 0 < cmp k (keyof h (M ! ?n))"
        using ins_pos_geq [OF ok srt _ True] by blast
      moreover have "pred_pos ?hs i p = j" using False by (intro stop) simp
      ultimately show ?thesis
        using okj okn less.prems(2) f
        by (subst Search_by_Key_while.simps) (simp add: forward_at_ok key_at_ok)
    next
      case np: True
      then have c: "0 < cmp k (keyof h (M ! ?n))"
        using ins_pos_less [OF n0, of cmp h k M] p by simp
      have hn: "i < lv h (M ! ?n)" using nxt_hit [of ?hs i j] True by simp
      have "length M - ?n < length M - j" using True nxt_gt [of j ?hs i] by simp
      from less.hyps [OF this np hn]
      obtain d' where IH: "Search_by_Key_while h cmp k i (M ! ?n) (d + dif h (M ! j) i) =
          Some (Inr (M ! pred_pos ?hs i p, d'))"
        and IH2: "spans h M (Suc i) \<longrightarrow> d + dif h (M ! j) i = int ?n \<longrightarrow> d' = int (pred_pos ?hs i p)"
        by blast
      have "spans h M (Suc i) \<Longrightarrow> dif h (M ! j) i = int ?n - int j"
        using jM less.prems(2) unfolding spans_def by simp
      then have "spans h M (Suc i) \<longrightarrow> d = int j \<longrightarrow> d' = int (pred_pos ?hs i p)"
        using IH2 by auto
      then show ?thesis
        using okj okn less.prems(2) f c IH
        by (subst Search_by_Key_while.simps) (simp add: forward_at_ok key_at_ok diff_at_ok)
    qed
  qed
qed

subsection \<open>The search by key, level by level\<close>

lemma bnd_simps [simp]:
  "bnd None f = None"
  "bnd (Some (Inl e)) f = Some (Inl e)"
  "bnd (Some (Inr x)) f = f x"
  by (simp_all add: bnd_def)

lemma bndE_simps [simp]:
  "bndE (Inl e) g = Inl e"
  "bndE (Inr x) g = g x"
  by (simp_all add: bndE_def)

lemma idx_ok: "i < length xs \<Longrightarrow> idx xs i = Inr (xs ! i)"
  by (simp add: idx_def)

lemma upd_ok: "i < length xs \<Longrightarrow> upd xs i v = Inr (xs[i := v])"
  by (simp add: upd_def)

lemma ini_ok: "i < length xs \<Longrightarrow> xs ! i = Some v \<Longrightarrow> ini xs i = Inr v"
  by (simp add: ini_def)

lemma pred_pos_shape:
  assumes hs: "heap_shape cmp h M" and "0 < p" and "i < MAX_LEVEL"
  shows "pred_pos (map (lv h) M) i p < p"
    and "p \<le> length M \<Longrightarrow> i < lv h (M ! pred_pos (map (lv h) M) i p)"
proof -
  have "M \<noteq> []" "lv h (M ! 0) = MAX_LEVEL" using hs by (simp_all add: heap_shape_def)
  then have "i < map (lv h) M ! 0" using assms(3) by simp
  from pred_pos_char [OF this assms(2)]
  have a: "pred_pos (map (lv h) M) i p < p"
    and b: "i < map (lv h) M ! pred_pos (map (lv h) M) i p" by simp_all
  show "pred_pos (map (lv h) M) i p < p" by (rule a)
  show "p \<le> length M \<Longrightarrow> i < lv h (M ! pred_pos (map (lv h) M) i p)"
    using a b by simp
qed

lemma Search_by_Key_start_shape:
  assumes ok: "comparator_ok cmp" and hs: "heap_shape cmp h M"
    and p: "p = ins_pos cmp h k M" and cmp: "Member_Compare sl = cmp"
    and cs: "cache_shape h sl M" and cur: "current < MAX_LEVEL"
    and jf: "jf < p" "current < lv h (M ! jf)"
  shows "\<exists>j1 d1. Search_by_Key_start h sl k current (M ! jf) lst = Inr (M ! j1, d1) \<and>
           j1 < p \<and> current < lv h (M ! j1) \<and>
           (cache_ranked sl M \<and> lst = int jf \<longrightarrow> d1 = int j1)"
proof -
  from cs cur obtain c where c: "c < length M" "finger sl ! current = M ! c"
    "current < lv h (M ! c)" unfolding cache_shape_def by blast
  have len: "current < length (finger sl)" "current < length (distance sl)"
    using cs cur by (simp_all add: cache_shape_def)
  have okc: "node_ok h (M ! c)" using hs c(1) by (rule heap_shape_node_ok)
  have srt: "keys_sorted cmp h M" using hs by (simp add: heap_shape_def)
  show ?thesis
  proof (cases "keyof h (M ! c) \<noteq> None \<and> 0 < cmp k (keyof h (M ! c))")
    case True
    have "keyof h (M ! 0) = None" using hs by (simp add: heap_shape_def)
    then have "c \<noteq> 0" using True by (cases "c = 0") auto
    then have c0: "0 < c" by simp
    have cp: "c < p"
    proof (rule ccontr)
      assume "\<not> c < p"
      then have "ins_pos cmp h k M \<le> c" using p by simp
      from ins_pos_geq [OF ok srt this c(1)] True show False by simp
    qed
    have "cache_ranked sl M \<Longrightarrow> distance sl ! current = int c"
      using c c0 cur unfolding cache_ranked_def by blast
    then show ?thesis
      using True c cp len okc cmp
      by (auto simp: Search_by_Key_start_def idx_ok key_at_ok)
  next
    case False
    then show ?thesis
      using c len okc cmp jf
      by (auto simp: Search_by_Key_start_def idx_ok key_at_ok)
  qed
qed

lemma spans_mono: "spans h M L \<Longrightarrow> L' \<le> L \<Longrightarrow> spans h M L'"
  unfolding spans_def by auto

lemma Search_by_Key_for_shape:
  assumes ok: "comparator_ok cmp" and hs: "heap_shape cmp h M"
    and p: "p = ins_pos cmp h k M"
  shows "Member_Compare sl = cmp \<Longrightarrow> cache_shape h sl M \<Longrightarrow> cnt \<le> MAX_LEVEL \<Longrightarrow>
     length fg = MAX_LEVEL \<Longrightarrow> length dl = MAX_LEVEL \<Longrightarrow>
     jf < p \<Longrightarrow> cnt \<le> lv h (M ! jf) \<Longrightarrow>
     \<exists>F D fg' dl' f' lst'.
       Search_by_Key_for h k cnt (sl, fg, dl, M ! jf, lst) =
         Some (Inr (sl\<lparr>finger := F, distance := D\<rparr>, fg', dl', f', lst')) \<and>
       length F = MAX_LEVEL \<and> length D = MAX_LEVEL \<and>
       length fg' = MAX_LEVEL \<and> length dl' = MAX_LEVEL \<and>
       (\<forall>i < cnt. F ! i = M ! pred_pos (map (lv h) M) i p \<and>
                   fg' ! i = Some (M ! pred_pos (map (lv h) M) i p) \<and>
                   dl' ! i = Some (D ! i)) \<and>
       (\<forall>i. cnt \<le> i \<longrightarrow> F ! i = finger sl ! i \<and> D ! i = distance sl ! i \<and>
                   fg' ! i = fg ! i \<and> dl' ! i = dl ! i) \<and>
       (spans h M cnt \<and> cache_ranked sl M \<and> lst = int jf \<longrightarrow>
          (\<forall>i < cnt. D ! i = int (pred_pos (map (lv h) M) i p)))"
proof (induction cnt arbitrary: sl fg dl jf lst)
  case 0
  have "sl = sl\<lparr>finger := finger sl, distance := distance sl\<rparr>" by simp
  then have "Search_by_Key_for h k 0 (sl, fg, dl, M ! jf, lst) =
      Some (Inr (sl\<lparr>finger := finger sl, distance := distance sl\<rparr>, fg, dl, M ! jf, lst))"
    by (simp add: ret_def)
  moreover have "length (finger sl) = MAX_LEVEL" "length (distance sl) = MAX_LEVEL"
    using "0.prems"(2) by (simp_all add: cache_shape_def)
  ultimately show ?case using "0.prems" by blast
next
  case (Suc current)
  let ?hs = "map (lv h) M"
  let ?pp = "\<lambda>i. pred_pos ?hs i p"
  have Mne: "M \<noteq> []" using hs by (simp add: heap_shape_def)
  have pb: "0 < p" "p \<le> length M" using ins_pos_bounds [OF Mne, of cmp h k] p by simp_all
  have cur: "current < MAX_LEVEL" using Suc.prems(3) by simp
  have lens: "length (finger sl) = MAX_LEVEL" "length (distance sl) = MAX_LEVEL"
    using Suc.prems(2) by (simp_all add: cache_shape_def)
  have "current < lv h (M ! jf)" using Suc.prems(7) by simp
  from Search_by_Key_start_shape [OF ok hs p Suc.prems(1) Suc.prems(2) cur Suc.prems(6) this, of lst]
  obtain j1 d1 where st: "Search_by_Key_start h sl k current (M ! jf) lst = Inr (M ! j1, d1)"
    and j1: "j1 < p" "current < lv h (M ! j1)"
    and r1: "cache_ranked sl M \<and> lst = int jf \<longrightarrow> d1 = int j1" by blast
  from Search_by_Key_while_shape [OF ok hs p j1, of d1]
  obtain d2 where wh: "Search_by_Key_while h cmp k current (M ! j1) d1 =
        Some (Inr (M ! ?pp current, d2))"
    and r2: "spans h M (Suc current) \<longrightarrow> d1 = int j1 \<longrightarrow> d2 = int (?pp current)" by blast
  let ?sl2 = "sl\<lparr>finger := (finger sl)[current := M ! ?pp current],
                 distance := (distance sl)[current := d2]\<rparr>"
  let ?fg2 = "fg[current := Some (M ! ?pp current)]"
  let ?dl2 = "dl[current := Some d2]"
  have step: "Search_by_Key_for h k (Suc current) (sl, fg, dl, M ! jf, lst) =
      Search_by_Key_for h k current (?sl2, ?fg2, ?dl2, M ! ?pp current, d2)"
    using st wh cur lens Suc.prems(1,4,5) by (simp add: upd_ok)
  have ppc: "?pp current < p" "current < lv h (M ! ?pp current)"
    using pred_pos_shape [OF hs pb(1) cur] pb(2) by simp_all
  have ppM: "?pp current < length M" using ppc(1) pb(2) by simp
  have cs2: "cache_shape h ?sl2 M"
    unfolding cache_shape_def
  proof (intro conjI allI impI)
    fix i assume i: "i < MAX_LEVEL"
    show "\<exists>c<length M. finger ?sl2 ! i = M ! c \<and> i < lv h (M ! c)"
    proof (cases "i = current")
      case True
      then show ?thesis using ppM ppc(2) lens cur by auto
    next
      case False
      then show ?thesis using Suc.prems(2) i unfolding cache_shape_def by simp
    qed
  qed (simp_all add: lens)
  have dist: "distinct M" using hs by (simp add: heap_shape_def)
  have cr2: "spans h M (Suc current) \<and> cache_ranked sl M \<and> lst = int jf \<Longrightarrow> cache_ranked ?sl2 M"
  proof -
    assume R: "spans h M (Suc current) \<and> cache_ranked sl M \<and> lst = int jf"
    then have d2: "d2 = int (?pp current)" using r1 r2 by simp
    show ?thesis
      unfolding cache_ranked_def
    proof (intro allI impI)
      fix i c assume i: "i < MAX_LEVEL" and c: "0 < c \<and> c < length M \<and> finger ?sl2 ! i = M ! c"
      show "distance ?sl2 ! i = int c"
      proof (cases "i = current")
        case True
        then have "M ! ?pp current = M ! c" using c lens cur by simp
        then have "?pp current = c" using dist ppM c by (simp add: nth_eq_iff_index_eq)
        then show ?thesis using True d2 lens cur by simp
      next
        case False
        then show ?thesis using R c i unfolding cache_ranked_def by simp
      qed
    qed
  qed
  have ple: "current \<le> lv h (M ! ?pp current)" using ppc(2) by simp
  have pre: "Member_Compare ?sl2 = cmp" "current \<le> MAX_LEVEL"
    "length ?fg2 = MAX_LEVEL" "length ?dl2 = MAX_LEVEL"
    using Suc.prems(1,3,4,5) by simp_all
  from Suc.IH [of ?sl2 ?fg2 ?dl2 "?pp current" d2, OF pre(1) cs2 pre(2) pre(3) pre(4) ppc(1) ple]
  obtain F D fg' dl' f' lst' where
    run: "Search_by_Key_for h k current (?sl2, ?fg2, ?dl2, M ! ?pp current, d2) =
         Some (Inr (?sl2\<lparr>finger := F, distance := D\<rparr>, fg', dl', f', lst'))"
    and ln: "length F = MAX_LEVEL" "length D = MAX_LEVEL" "length fg' = MAX_LEVEL"
      "length dl' = MAX_LEVEL"
    and lo: "\<forall>i < current. F ! i = M ! ?pp i \<and> fg' ! i = Some (M ! ?pp i) \<and> dl' ! i = Some (D ! i)"
    and hi: "\<forall>i. current \<le> i \<longrightarrow> F ! i = finger ?sl2 ! i \<and> D ! i = distance ?sl2 ! i \<and>
                   fg' ! i = ?fg2 ! i \<and> dl' ! i = ?dl2 ! i"
    and rk: "spans h M current \<and> cache_ranked ?sl2 M \<and> d2 = int (?pp current) \<longrightarrow>
          (\<forall>i < current. D ! i = int (?pp i))"
    by blast
  have eq: "?sl2\<lparr>finger := F, distance := D\<rparr> = sl\<lparr>finger := F, distance := D\<rparr>" by simp
  have at: "F ! current = M ! ?pp current" "D ! current = d2"
    "fg' ! current = Some (M ! ?pp current)" "dl' ! current = Some d2"
    using hi lens cur Suc.prems(4,5) by simp_all
  have c1: "\<forall>i < Suc current. F ! i = M ! ?pp i \<and> fg' ! i = Some (M ! ?pp i) \<and> dl' ! i = Some (D ! i)"
    using lo at by (auto simp: less_Suc_eq)
  have c2: "\<forall>i. Suc current \<le> i \<longrightarrow> F ! i = finger sl ! i \<and> D ! i = distance sl ! i \<and>
                   fg' ! i = fg ! i \<and> dl' ! i = dl ! i"
    using hi by auto
  have c3: "spans h M (Suc current) \<and> cache_ranked sl M \<and> lst = int jf \<longrightarrow>
          (\<forall>i < Suc current. D ! i = int (?pp i))"
  proof
    assume R: "spans h M (Suc current) \<and> cache_ranked sl M \<and> lst = int jf"
    then have d2: "d2 = int (?pp current)" using r1 r2 by simp
    have "spans h M current" using R spans_mono [of h M "Suc current" current] by simp
    then have "\<forall>i < current. D ! i = int (?pp i)" using rk cr2 [OF R] d2 by simp
    then show "\<forall>i < Suc current. D ! i = int (?pp i)" using at d2 by (auto simp: less_Suc_eq)
  qed
  show ?case
    using step run eq ln c1 c2 c3 by (metis (no_types, lifting))
qed

subsection \<open>Assignments to the arrays of an element\<close>

lemma same_nodes_refl: "same_nodes h h"
  by (simp add: same_nodes_def)

lemma same_nodes_trans: "same_nodes h h' \<Longrightarrow> same_nodes h' h'' \<Longrightarrow> same_nodes h h''"
  by (simp add: same_nodes_def)

lemma same_nodes_node_ok: "same_nodes h h' \<Longrightarrow> node_ok h' a = node_ok h a"
  by (simp add: same_nodes_def node_ok_def)

lemma same_nodes_lv: "same_nodes h h' \<Longrightarrow> lv h' a = lv h a"
  by (simp add: same_nodes_def)

lemma same_nodes_keyof: "same_nodes h h' \<Longrightarrow> keyof h' a = keyof h a"
  by (simp add: same_nodes_def)

lemma set_diff_ok:
  "node_ok h a \<Longrightarrow> i < lv h a \<Longrightarrow> set_diff h a i v = Inr (put_diff h a i v)"
  by (auto simp: set_diff_def node_ok_def node_at_def upd_def put_diff_def lv_def)

lemma set_forward_ok:
  "node_ok h a \<Longrightarrow> i < lv h a \<Longrightarrow> set_forward h a i p = Inr (put_forward h a i p)"
  by (auto simp: set_forward_def node_ok_def node_at_def upd_def put_forward_def lv_def)

lemma put_diff_same: "node_ok h a \<Longrightarrow> same_nodes h (put_diff h a i v)"
  by (auto simp: same_nodes_def put_diff_def node_ok_def lv_def keyof_def dataof_def)

lemma put_forward_same: "node_ok h a \<Longrightarrow> same_nodes h (put_forward h a i p)"
  by (auto simp: same_nodes_def put_forward_def node_ok_def lv_def keyof_def dataof_def)

lemma put_diff_fwd: "fwd (put_diff h a i v) b j = fwd h b j"
  by (simp add: put_diff_def fwd_def)

lemma put_forward_dif: "dif (put_forward h a i p) b j = dif h b j"
  by (simp add: put_forward_def dif_def)

lemma put_diff_dif:
  "node_ok h a \<Longrightarrow> i < lv h a \<Longrightarrow>
     dif (put_diff h a i v) b j = (if b = a \<and> j = i then v else dif h b j)"
  by (auto simp: put_diff_def dif_def node_ok_def)

lemma put_forward_fwd:
  "node_ok h a \<Longrightarrow> i < lv h a \<Longrightarrow>
     fwd (put_forward h a i p) b j = (if b = a \<and> j = i then p else fwd h b j)"
  by (auto simp: put_forward_def fwd_def node_ok_def lv_def)

lemma for_up_rule:
  assumes "I 0 s"
    and "\<And>c s. c < n \<Longrightarrow> I c s \<Longrightarrow> \<exists>s'. body (a + c) s = Inr s' \<and> I (Suc c) s'"
  shows "\<exists>s'. for_up a n body s = Inr s' \<and> I n s'"
  using assms(2)
proof (induction n)
  case 0
  then show ?case using assms(1) by simp
next
  case (Suc n)
  have "\<exists>s'. for_up a n body s = Inr s' \<and> I n s'"
    by (rule Suc.IH) (simp add: Suc.prems)
  then obtain s1 where s1: "for_up a n body s = Inr s1" "I n s1" by blast
  from Suc.prems [of n s1] s1(2) obtain s2 where "body (a + n) s1 = Inr s2" "I (Suc n) s2"
    by blast
  then show ?case using s1(1) by simp
qed

subsection \<open>The loops of SkipList\_Insert and SkipList\_Delete\<close>

text \<open>The loop that fills the spans of the new element and of its predecessors.\<close>

lemma Insert_diff_loop:
  assumes u: "\<And>i. i < nl \<Longrightarrow> i < length u \<and> u ! i = Some (uu i) \<and> node_ok h (uu i) \<and>
                 i < lv h (uu i) \<and> uu i \<noteq> n"
    and d: "\<And>i. i < nl \<Longrightarrow> i < length d \<and> d ! i = Some (dd i)"
    and n: "node_ok h n" "lv h n = nl" and nl: "0 < nl"
  shows "\<exists>h'. for_up 0 nl (Insert_diff_body n u d) h = Inr h' \<and> same_nodes h h' \<and>
           (\<forall>b j. fwd h' b j = fwd h b j) \<and>
           (\<forall>b j. dif h' b j =
              (if j < nl \<and> b = n then dif h (uu j) j - dd 0 + dd j
               else if j < nl \<and> b = uu j then dd 0 - dd j + 1
               else dif h b j))"
proof -
  let ?I = "\<lambda>c h'. same_nodes h h' \<and> (\<forall>b j. fwd h' b j = fwd h b j) \<and>
           (\<forall>b j. dif h' b j =
              (if j < c \<and> b = n then dif h (uu j) j - dd 0 + dd j
               else if j < c \<and> b = uu j then dd 0 - dd j + 1
               else dif h b j))"
  have "\<exists>h'. for_up 0 nl (Insert_diff_body n u d) h = Inr h' \<and> ?I nl h'"
  proof (rule for_up_rule [where I = ?I])
    show "?I 0 h" by (simp add: same_nodes_refl)
  next
    fix c s assume c: "c < nl" and I: "?I c s"
    have sn: "same_nodes h s" using I by simp
    have uc: "c < length u" "u ! c = Some (uu c)" "node_ok s (uu c)" "c < lv s (uu c)" "uu c \<noteq> n"
      using u [OF c] sn by (simp_all add: same_nodes_node_ok same_nodes_lv)
    have d0: "ini d 0 = Inr (dd 0)" using d [OF nl] by (simp add: ini_ok)
    have dc: "ini d c = Inr (dd c)" using d [OF c] by (simp add: ini_ok)
    have ns: "node_ok s n" "c < lv s n" using n c sn by (simp_all add: same_nodes_node_ok same_nodes_lv)
    have cur: "dif s (uu c) c = dif h (uu c) c" using I uc(5) by simp
    let ?s1 = "put_diff s n c (dif h (uu c) c - dd 0 + dd c)"
    let ?s2 = "put_diff ?s1 (uu c) c (dd 0 - dd c + 1)"
    have s1: "same_nodes s ?s1" using ns(1) by (rule put_diff_same)
    have ok1: "node_ok ?s1 (uu c)" "c < lv ?s1 (uu c)"
      using uc s1 by (simp_all add: same_nodes_node_ok same_nodes_lv)
    have s2: "same_nodes ?s1 ?s2" using ok1(1) by (rule put_diff_same)
    have body: "Insert_diff_body n u d (0 + c) s = Inr ?s2"
      using uc d0 dc ns cur ok1
      by (simp add: Insert_diff_body_def ini_ok diff_at_ok set_diff_ok)
    have "same_nodes h ?s2" using sn s1 s2 same_nodes_trans by blast
    moreover have "\<forall>b j. fwd ?s2 b j = fwd h b j" using I by (simp add: put_diff_fwd)
    moreover have "\<forall>b j. dif ?s2 b j =
              (if j < Suc c \<and> b = n then dif h (uu j) j - dd 0 + dd j
               else if j < Suc c \<and> b = uu j then dd 0 - dd j + 1
               else dif h b j)"
    proof (intro allI)
      fix b j
      have a: "dif ?s2 b j = (if b = uu c \<and> j = c then dd 0 - dd c + 1 else dif ?s1 b j)"
        by (rule put_diff_dif [OF ok1])
      have b: "dif ?s1 b j = (if b = n \<and> j = c then dif h (uu c) c - dd 0 + dd c else dif s b j)"
        by (rule put_diff_dif [OF ns])
      have c': "dif s b j = (if j < c \<and> b = n then dif h (uu j) j - dd 0 + dd j
               else if j < c \<and> b = uu j then dd 0 - dd j + 1
               else dif h b j)" using I by blast
      show "dif ?s2 b j =
              (if j < Suc c \<and> b = n then dif h (uu j) j - dd 0 + dd j
               else if j < Suc c \<and> b = uu j then dd 0 - dd j + 1
               else dif h b j)"
        unfolding a b c' using uc(5) by (auto simp: less_Suc_eq)
    qed
    ultimately show "\<exists>s'. Insert_diff_body n u d (0 + c) s = Inr s' \<and> ?I (Suc c) s'"
      using body by (intro exI [of _ ?s2] conjI)
  qed
  then show ?thesis by blast
qed

lemma Insert_link_loop:
  assumes u: "\<And>i. i < nl \<Longrightarrow> i < length u \<and> u ! i = Some (uu i) \<and> node_ok h (uu i) \<and>
                 i < lv h (uu i) \<and> uu i \<noteq> n"
    and n: "node_ok h n" "lv h n = nl"
  shows "\<exists>h'. for_up 0 nl (Insert_link_body n u) h = Inr h' \<and> same_nodes h h' \<and>
           (\<forall>b j. dif h' b j = dif h b j) \<and>
           (\<forall>b j. fwd h' b j =
              (if j < nl \<and> b = n then fwd h (uu j) j
               else if j < nl \<and> b = uu j then Some n
               else fwd h b j))"
proof -
  let ?I = "\<lambda>c h'. same_nodes h h' \<and> (\<forall>b j. dif h' b j = dif h b j) \<and>
           (\<forall>b j. fwd h' b j =
              (if j < c \<and> b = n then fwd h (uu j) j
               else if j < c \<and> b = uu j then Some n
               else fwd h b j))"
  have "\<exists>h'. for_up 0 nl (Insert_link_body n u) h = Inr h' \<and> ?I nl h'"
  proof (rule for_up_rule [where I = ?I])
    show "?I 0 h" by (simp add: same_nodes_refl)
  next
    fix c s assume c: "c < nl" and I: "?I c s"
    have sn: "same_nodes h s" using I by simp
    have uc: "c < length u" "u ! c = Some (uu c)" "node_ok s (uu c)" "c < lv s (uu c)" "uu c \<noteq> n"
      using u [OF c] sn by (simp_all add: same_nodes_node_ok same_nodes_lv)
    have ns: "node_ok s n" "c < lv s n" using n c sn by (simp_all add: same_nodes_node_ok same_nodes_lv)
    have cur: "fwd s (uu c) c = fwd h (uu c) c" using I uc(5) by simp
    let ?s1 = "put_forward s n c (fwd h (uu c) c)"
    let ?s2 = "put_forward ?s1 (uu c) c (Some n)"
    have s1: "same_nodes s ?s1" using ns(1) by (rule put_forward_same)
    have ok1: "node_ok ?s1 (uu c)" "c < lv ?s1 (uu c)"
      using uc s1 by (simp_all add: same_nodes_node_ok same_nodes_lv)
    have s2: "same_nodes ?s1 ?s2" using ok1(1) by (rule put_forward_same)
    have body: "Insert_link_body n u (0 + c) s = Inr ?s2"
      using uc ns cur ok1
      by (simp add: Insert_link_body_def ini_ok forward_at_ok set_forward_ok)
    have "same_nodes h ?s2" using sn s1 s2 same_nodes_trans by blast
    moreover have "\<forall>b j. dif ?s2 b j = dif h b j" using I by (simp add: put_forward_dif)
    moreover have "\<forall>b j. fwd ?s2 b j =
              (if j < Suc c \<and> b = n then fwd h (uu j) j
               else if j < Suc c \<and> b = uu j then Some n
               else fwd h b j)"
    proof (intro allI)
      fix b j
      have a: "fwd ?s2 b j = (if b = uu c \<and> j = c then Some n else fwd ?s1 b j)"
        by (rule put_forward_fwd [OF ok1])
      have b: "fwd ?s1 b j = (if b = n \<and> j = c then fwd h (uu c) c else fwd s b j)"
        by (rule put_forward_fwd [OF ns])
      have c': "fwd s b j = (if j < c \<and> b = n then fwd h (uu j) j
               else if j < c \<and> b = uu j then Some n
               else fwd h b j)" using I by blast
      show "fwd ?s2 b j =
              (if j < Suc c \<and> b = n then fwd h (uu j) j
               else if j < Suc c \<and> b = uu j then Some n
               else fwd h b j)"
        unfolding a b c' using uc(5) by (auto simp: less_Suc_eq)
    qed
    ultimately show "\<exists>s'. Insert_link_body n u (0 + c) s = Inr s' \<and> ?I (Suc c) s'"
      using body by (intro exI [of _ ?s2] conjI)
  qed
  then show ?thesis by blast
qed

lemma Insert_incr_loop:
  assumes u: "\<And>i. nl \<le> i \<Longrightarrow> i < nl + cnt \<Longrightarrow>
                 i < length u \<and> u ! i = Some (uu i) \<and> node_ok h (uu i) \<and> i < lv h (uu i)"
  shows "\<exists>h'. for_up nl cnt (Insert_incr_body u) h = Inr h' \<and> same_nodes h h' \<and>
           (\<forall>b j. fwd h' b j = fwd h b j) \<and>
           (\<forall>b j. dif h' b j =
              (if nl \<le> j \<and> j < nl + cnt \<and> b = uu j then dif h b j + 1 else dif h b j))"
proof -
  let ?I = "\<lambda>c h'. same_nodes h h' \<and> (\<forall>b j. fwd h' b j = fwd h b j) \<and>
           (\<forall>b j. dif h' b j =
              (if nl \<le> j \<and> j < nl + c \<and> b = uu j then dif h b j + 1 else dif h b j))"
  have "\<exists>h'. for_up nl cnt (Insert_incr_body u) h = Inr h' \<and> ?I cnt h'"
  proof (rule for_up_rule [where I = ?I])
    show "?I 0 h" by (simp add: same_nodes_refl)
  next
    fix c s assume c: "c < cnt" and I: "?I c s"
    have sn: "same_nodes h s" using I by simp
    have uc: "nl + c < length u" "u ! (nl + c) = Some (uu (nl + c))" "node_ok s (uu (nl + c))"
      "nl + c < lv s (uu (nl + c))"
      using u [of "nl + c"] c sn by (simp_all add: same_nodes_node_ok same_nodes_lv)
    have cur: "dif s (uu (nl + c)) (nl + c) = dif h (uu (nl + c)) (nl + c)" using I by simp
    let ?s2 = "put_diff s (uu (nl + c)) (nl + c) (dif h (uu (nl + c)) (nl + c) + 1)"
    have s2: "same_nodes s ?s2" using uc(3) by (rule put_diff_same)
    have body: "Insert_incr_body u (nl + c) s = Inr ?s2"
      using uc cur by (simp add: Insert_incr_body_def ini_ok diff_at_ok set_diff_ok)
    have "same_nodes h ?s2" using sn s2 same_nodes_trans by blast
    moreover have "\<forall>b j. fwd ?s2 b j = fwd h b j" using I by (simp add: put_diff_fwd)
    moreover have "\<forall>b j. dif ?s2 b j =
              (if nl \<le> j \<and> j < nl + Suc c \<and> b = uu j then dif h b j + 1 else dif h b j)"
    proof (intro allI)
      fix b j
      have a: "dif ?s2 b j = (if b = uu (nl + c) \<and> j = nl + c
                 then dif h (uu (nl + c)) (nl + c) + 1 else dif s b j)"
        by (rule put_diff_dif [OF uc(3,4)])
      have c': "dif s b j =
          (if nl \<le> j \<and> j < nl + c \<and> b = uu j then dif h b j + 1 else dif h b j)"
        using I by blast
      show "dif ?s2 b j =
              (if nl \<le> j \<and> j < nl + Suc c \<and> b = uu j then dif h b j + 1 else dif h b j)"
        unfolding a c' by (auto simp: less_Suc_eq)
    qed
    ultimately show "\<exists>s'. Insert_incr_body u (nl + c) s = Inr s' \<and> ?I (Suc c) s'"
      using body by (intro exI [of _ ?s2] conjI)
  qed
  then show ?thesis by blast
qed

lemma Insert_grow_loop:
  assumes hdr: "node_ok h hdr" "lv h hdr = MAX_LEVEL" "header sl = hdr"
    and bound: "L + cnt \<le> MAX_LEVEL"
    and len: "length u = MAX_LEVEL" "length d = MAX_LEVEL"
  shows "\<exists>h' u' d'. for_up L cnt (Insert_grow_body sl) (h, u, d) = Inr (h', u', d') \<and>
           same_nodes h h' \<and> (\<forall>b j. fwd h' b j = fwd h b j) \<and>
           length u' = MAX_LEVEL \<and> length d' = MAX_LEVEL \<and>
           (\<forall>i. u' ! i = (if L \<le> i \<and> i < L + cnt then Some hdr else u ! i)) \<and>
           (\<forall>i. d' ! i = (if L \<le> i \<and> i < L + cnt then Some 0 else d ! i)) \<and>
           (\<forall>b j. dif h' b j =
              (if b = hdr \<and> L \<le> j \<and> j < L + cnt then length_sl sl + 1 else dif h b j))"
proof -
  let ?I = "\<lambda>c s. case s of (h', u', d') \<Rightarrow>
           same_nodes h h' \<and> (\<forall>b j. fwd h' b j = fwd h b j) \<and>
           length u' = MAX_LEVEL \<and> length d' = MAX_LEVEL \<and>
           (\<forall>i. u' ! i = (if L \<le> i \<and> i < L + c then Some hdr else u ! i)) \<and>
           (\<forall>i. d' ! i = (if L \<le> i \<and> i < L + c then Some 0 else d ! i)) \<and>
           (\<forall>b j. dif h' b j =
              (if b = hdr \<and> L \<le> j \<and> j < L + c then length_sl sl + 1 else dif h b j))"
  have "\<exists>s'. for_up L cnt (Insert_grow_body sl) (h, u, d) = Inr s' \<and> ?I cnt s'"
  proof (rule for_up_rule [where I = ?I])
    show "?I 0 (h, u, d)" using len by (auto simp: same_nodes_refl)
  next
    fix c s assume c: "c < cnt" and I: "?I c s"
    obtain h1 u1 d1 where s: "s = (h1, u1, d1)" by (cases s) auto
    have sn: "same_nodes h h1" and l1: "length u1 = MAX_LEVEL" "length d1 = MAX_LEVEL"
      and fw: "\<forall>b j. fwd h1 b j = fwd h b j"
      and u1: "\<forall>i. u1 ! i = (if L \<le> i \<and> i < L + c then Some hdr else u ! i)"
      and d1: "\<forall>i. d1 ! i = (if L \<le> i \<and> i < L + c then Some 0 else d ! i)"
      and df: "\<forall>b j. dif h1 b j =
              (if b = hdr \<and> L \<le> j \<and> j < L + c then length_sl sl + 1 else dif h b j)"
      using I s by simp_all
    have lt: "L + c < MAX_LEVEL" using c bound by simp
    have ok1: "node_ok h1 hdr" "L + c < lv h1 hdr"
      using hdr sn lt by (simp_all add: same_nodes_node_ok same_nodes_lv)
    let ?h2 = "put_diff h1 hdr (L + c) (length_sl sl + 1)"
    let ?u2 = "u1[L + c := Some hdr]"
    let ?d2 = "d1[L + c := Some 0]"
    have body: "Insert_grow_body sl (L + c) s = Inr (?h2, ?u2, ?d2)"
      using s l1 lt ok1 hdr(3)
      by (simp add: Insert_grow_body_def upd_ok ini_ok set_diff_ok)
    have "same_nodes h ?h2" using sn put_diff_same [OF ok1(1)] same_nodes_trans by blast
    moreover have "\<forall>b j. fwd ?h2 b j = fwd h b j" using fw by (simp add: put_diff_fwd)
    moreover have "\<forall>i. ?u2 ! i = (if L \<le> i \<and> i < L + Suc c then Some hdr else u ! i)"
      using u1 l1 lt by (auto simp: nth_list_update less_Suc_eq)
    moreover have "\<forall>i. ?d2 ! i = (if L \<le> i \<and> i < L + Suc c then Some 0 else d ! i)"
      using d1 l1 lt by (auto simp: nth_list_update less_Suc_eq)
    moreover have "\<forall>b j. dif ?h2 b j =
              (if b = hdr \<and> L \<le> j \<and> j < L + Suc c then length_sl sl + 1 else dif h b j)"
    proof (intro allI)
      fix b j
      have a: "dif ?h2 b j = (if b = hdr \<and> j = L + c then length_sl sl + 1 else dif h1 b j)"
        by (rule put_diff_dif [OF ok1])
      have c': "dif h1 b j =
          (if b = hdr \<and> L \<le> j \<and> j < L + c then length_sl sl + 1 else dif h b j)"
        using df by blast
      show "dif ?h2 b j =
              (if b = hdr \<and> L \<le> j \<and> j < L + Suc c then length_sl sl + 1 else dif h b j)"
        unfolding a c' by (auto simp: less_Suc_eq)
    qed
    ultimately have "?I (Suc c) (?h2, ?u2, ?d2)" using l1 by simp
    then show "\<exists>s'. Insert_grow_body sl (L + c) s = Inr s' \<and> ?I (Suc c) s'"
      using body by blast
  qed
  then show ?thesis by auto
qed

lemma Delete_unlink_loop:
  assumes u: "\<And>i. i < L \<Longrightarrow> i < length u \<and> u ! i = Some (uu i) \<and> node_ok h (uu i) \<and>
                 i < lv h (uu i) \<and> uu i \<noteq> n \<and> (fwd h (uu i) i = Some n \<longrightarrow> i < lv h n)"
    and n: "node_ok h n"
  shows "\<exists>h'. for_up 0 L (Delete_unlink_body n u) h = Inr h' \<and> same_nodes h h' \<and>
           (\<forall>b j. fwd h' b j =
              (if j < L \<and> b = uu j \<and> fwd h (uu j) j = Some n then fwd h n j else fwd h b j)) \<and>
           (\<forall>b j. dif h' b j =
              (if j < L \<and> b = uu j
               then (if fwd h (uu j) j \<noteq> Some n then dif h b j - 1
                     else dif h b j + (dif h n j - 1))
               else dif h b j))"
proof -
  let ?I = "\<lambda>c h'. same_nodes h h' \<and>
           (\<forall>b j. fwd h' b j =
              (if j < c \<and> b = uu j \<and> fwd h (uu j) j = Some n then fwd h n j else fwd h b j)) \<and>
           (\<forall>b j. dif h' b j =
              (if j < c \<and> b = uu j
               then (if fwd h (uu j) j \<noteq> Some n then dif h b j - 1
                     else dif h b j + (dif h n j - 1))
               else dif h b j))"
  have "\<exists>h'. for_up 0 L (Delete_unlink_body n u) h = Inr h' \<and> ?I L h'"
  proof (rule for_up_rule [where I = ?I])
    show "?I 0 h" by (simp add: same_nodes_refl)
  next
    fix c s assume c: "c < L" and I: "?I c s"
    have sn: "same_nodes h s" using I by simp
    have uc: "c < length u" "u ! c = Some (uu c)" "node_ok s (uu c)" "c < lv s (uu c)" "uu c \<noteq> n"
      using u [OF c] sn by (simp_all add: same_nodes_node_ok same_nodes_lv)
    have ns: "node_ok s n" using n sn by (simp add: same_nodes_node_ok)
    have fs: "\<forall>b j. fwd s b j =
              (if j < c \<and> b = uu j \<and> fwd h (uu j) j = Some n then fwd h n j else fwd h b j)"
      and ds: "\<forall>b j. dif s b j =
              (if j < c \<and> b = uu j
               then (if fwd h (uu j) j \<noteq> Some n then dif h b j - 1
                     else dif h b j + (dif h n j - 1))
               else dif h b j)"
      using I by simp_all
    have curf: "fwd s (uu c) c = fwd h (uu c) c" using fs by simp
    have curd: "dif s (uu c) c = dif h (uu c) c" using ds by simp
    have curn: "fwd s n c = fwd h n c" "dif s n c = dif h n c" using fs ds uc(5) by auto
    show "\<exists>s'. Delete_unlink_body n u (0 + c) s = Inr s' \<and> ?I (Suc c) s'"
    proof (cases "fwd h (uu c) c = Some n")
      case False
      let ?s2 = "put_diff s (uu c) c (dif h (uu c) c - 1)"
      have body: "Delete_unlink_body n u (0 + c) s = Inr ?s2"
        using uc curf curd False
        by (simp add: Delete_unlink_body_def ini_ok forward_at_ok diff_at_ok set_diff_ok)
      have "same_nodes h ?s2" using sn put_diff_same [OF uc(3)] same_nodes_trans by blast
      moreover have "\<forall>b j. fwd ?s2 b j =
              (if j < Suc c \<and> b = uu j \<and> fwd h (uu j) j = Some n then fwd h n j else fwd h b j)"
        using fs False by (auto simp: put_diff_fwd less_Suc_eq)
      moreover have "\<forall>b j. dif ?s2 b j =
              (if j < Suc c \<and> b = uu j
               then (if fwd h (uu j) j \<noteq> Some n then dif h b j - 1
                     else dif h b j + (dif h n j - 1))
               else dif h b j)"
      proof (intro allI)
        fix b j
        have a: "dif ?s2 b j = (if b = uu c \<and> j = c then dif h (uu c) c - 1 else dif s b j)"
          by (rule put_diff_dif [OF uc(3,4)])
        show "dif ?s2 b j =
              (if j < Suc c \<and> b = uu j
               then (if fwd h (uu j) j \<noteq> Some n then dif h b j - 1
                     else dif h b j + (dif h n j - 1))
               else dif h b j)"
          unfolding a using ds False by (auto simp: less_Suc_eq)
      qed
      ultimately show ?thesis using body by (intro exI [of _ ?s2] conjI)
    next
      case True
      then have cn: "c < lv h n" using u [OF c] by simp
      then have cns: "c < lv s n" using sn by (simp add: same_nodes_lv)
      let ?s1 = "put_diff s (uu c) c (dif h (uu c) c + (dif h n c - 1))"
      let ?s2 = "put_forward ?s1 (uu c) c (fwd h n c)"
      have s1: "same_nodes s ?s1" using uc(3) by (rule put_diff_same)
      have ok1: "node_ok ?s1 (uu c)" "c < lv ?s1 (uu c)" "node_ok ?s1 n" "c < lv ?s1 n"
        using uc ns cns s1 by (simp_all add: same_nodes_node_ok same_nodes_lv)
      have fn1: "fwd ?s1 n c = fwd h n c" using curn by (simp add: put_diff_fwd)
      have body: "Delete_unlink_body n u (0 + c) s = Inr ?s2"
        using uc ns cns curf curd curn True ok1 fn1
        by (simp add: Delete_unlink_body_def ini_ok forward_at_ok diff_at_ok set_diff_ok
            set_forward_ok)
      have "same_nodes h ?s2"
        using sn s1 put_forward_same [OF ok1(1)] same_nodes_trans by blast
      moreover have "\<forall>b j. fwd ?s2 b j =
              (if j < Suc c \<and> b = uu j \<and> fwd h (uu j) j = Some n then fwd h n j else fwd h b j)"
      proof (intro allI)
        fix b j
        have a: "fwd ?s2 b j = (if b = uu c \<and> j = c then fwd h n c else fwd ?s1 b j)"
          by (rule put_forward_fwd [OF ok1(1,2)])
        show "fwd ?s2 b j =
              (if j < Suc c \<and> b = uu j \<and> fwd h (uu j) j = Some n then fwd h n j else fwd h b j)"
          unfolding a using fs True by (auto simp: less_Suc_eq put_diff_fwd)
      qed
      moreover have "\<forall>b j. dif ?s2 b j =
              (if j < Suc c \<and> b = uu j
               then (if fwd h (uu j) j \<noteq> Some n then dif h b j - 1
                     else dif h b j + (dif h n j - 1))
               else dif h b j)"
      proof (intro allI)
        fix b j
        have a: "dif ?s2 b j = dif ?s1 b j" by (rule put_forward_dif)
        have b: "dif ?s1 b j = (if b = uu c \<and> j = c then dif h (uu c) c + (dif h n c - 1)
                   else dif s b j)"
          by (rule put_diff_dif [OF uc(3,4)])
        show "dif ?s2 b j =
              (if j < Suc c \<and> b = uu j
               then (if fwd h (uu j) j \<noteq> Some n then dif h b j - 1
                     else dif h b j + (dif h n j - 1))
               else dif h b j)"
          unfolding a b using ds True by (auto simp: less_Suc_eq)
      qed
      ultimately show ?thesis using body by (intro exI [of _ ?s2] conjI)
    qed
  qed
  then show ?thesis by blast
qed

subsection \<open>Putting a position into a list and taking one out\<close>

lemma length_ins_at [simp]: "length (ins_at p x xs) = Suc (length xs)"
  by (simp add: ins_at_def)

lemma length_del_at [simp]: "q < length xs \<Longrightarrow> length (del_at q xs) = length xs - 1"
  by (auto simp: del_at_def)

lemma nth_ins_at:
  "p \<le> length xs \<Longrightarrow>
     ins_at p x xs ! m = (if m < p then xs ! m else if m = p then x else xs ! (m - 1))"
  by (auto simp: ins_at_def nth_append nth_Cons' min_def)

lemma nth_del_at:
  "q < length xs \<Longrightarrow> del_at q xs ! m = (if m < q then xs ! m else xs ! Suc m)"
  by (auto simp: del_at_def nth_append min_def)

lemma map_ins_at: "map f (ins_at p x xs) = ins_at p (f x) (map f xs)"
  by (simp add: ins_at_def take_map drop_map)

lemma map_del_at: "map f (del_at q xs) = del_at q (map f xs)"
  by (simp add: del_at_def take_map drop_map)

lemma set_ins_at: "set (ins_at p x xs) = insert x (set xs)"
proof -
  have "set (take p xs) \<union> set (drop p xs) = set xs"
    by (metis append_take_drop_id set_append)
  then show ?thesis by (auto simp: ins_at_def)
qed

lemma distinct_ins_at: "distinct xs \<Longrightarrow> x \<notin> set xs \<Longrightarrow> distinct (ins_at p x xs)"
proof -
  assume d: "distinct xs" and x: "x \<notin> set xs"
  have "set (take p xs) \<inter> set (drop p xs) = {}"
    using d by (metis append_take_drop_id distinct_append)
  moreover have "x \<notin> set (take p xs)" "x \<notin> set (drop p xs)"
    using x in_set_takeD in_set_dropD by fast+
  ultimately show ?thesis using d by (simp add: ins_at_def)
qed

lemma set_del_at_subset: "set (del_at q xs) \<subseteq> set xs"
  using set_take_subset [of q xs] set_drop_subset [of "Suc q" xs] by (auto simp: del_at_def)

lemma distinct_del_at: "distinct xs \<Longrightarrow> distinct (del_at q xs)"
proof -
  assume d: "distinct xs"
  have "set (take q xs) \<inter> set (drop q xs) = {}"
    using d by (metis append_take_drop_id distinct_append)
  moreover have "set (drop (Suc q) xs) \<subseteq> set (drop q xs)"
    by (rule set_drop_subset_set_drop) simp
  ultimately have "set (take q xs) \<inter> set (drop (Suc q) xs) = {}" by blast
  then show ?thesis using d by (simp add: del_at_def)
qed

lemma nth_del_at_notin:
  "distinct xs \<Longrightarrow> q < length xs \<Longrightarrow> xs ! q \<notin> set (del_at q xs)"
proof
  assume d: "distinct xs" and q: "q < length xs" and "xs ! q \<in> set (del_at q xs)"
  then obtain m where m: "m < length xs - 1" "del_at q xs ! m = xs ! q"
    by (auto simp: in_set_conv_nth)
  show False
  proof (cases "m < q")
    case True
    then have "xs ! m = xs ! q" using m q by (simp add: nth_del_at)
    then show False using d True q by (simp add: nth_eq_iff_index_eq)
  next
    case False
    then have "xs ! Suc m = xs ! q" using m q by (simp add: nth_del_at)
    then show False using d False q m by (simp add: nth_eq_iff_index_eq)
  qed
qed

lemma nxt_ins_before:
  assumes "p \<le> length hs" "j < p" "nxt hs i j < p"
  shows "nxt (ins_at p x hs) i j = nxt hs i j"
proof (rule nxt_unique)
  show "j < nxt hs i j" by (rule nxt_gt)
  show "nxt hs i j \<le> length (ins_at p x hs)" using assms by simp
  show "ins_at p x hs ! m \<le> i" if "j < m" "m < nxt hs i j" for m
    using that assms nxt_between [of j m hs i] by (simp add: nth_ins_at)
  show "i < ins_at p x hs ! nxt hs i j"
    using assms nxt_hit [of hs i j] by (simp add: nth_ins_at)
qed

lemma nxt_ins_hit:
  assumes "p \<le> length hs" "j < p" "p \<le> nxt hs i j" "i < x"
  shows "nxt (ins_at p x hs) i j = p"
proof (rule nxt_unique)
  show "j < p" by (rule assms(2))
  show "p \<le> length (ins_at p x hs)" using assms by simp
  show "ins_at p x hs ! m \<le> i" if "j < m" "m < p" for m
    using that assms nxt_between [of j m hs i] by (simp add: nth_ins_at)
  show "i < ins_at p x hs ! p" using assms by (simp add: nth_ins_at)
qed

lemma nxt_ins_over:
  assumes "p \<le> length hs" "j < p" "p \<le> nxt hs i j" "x \<le> i"
  shows "nxt (ins_at p x hs) i j = Suc (nxt hs i j)"
proof (rule nxt_unique)
  have jl: "j < length hs" using assms by simp
  show "j < Suc (nxt hs i j)" using nxt_gt [of j hs i] by simp
  show "Suc (nxt hs i j) \<le> length (ins_at p x hs)" using nxt_le [OF jl, of i] by simp
  show "ins_at p x hs ! m \<le> i" if "j < m" "m < Suc (nxt hs i j)" for m
  proof (cases "m \<le> p")
    case True
    then show ?thesis
      using that assms nxt_between [of j m hs i] by (auto simp: nth_ins_at)
  next
    case False
    then have "j < m - 1" "m - 1 < nxt hs i j" using that assms by auto
    then have "hs ! (m - 1) \<le> i" by (rule nxt_between)
    then show ?thesis using False assms by (simp add: nth_ins_at)
  qed
  show "i < ins_at p x hs ! Suc (nxt hs i j)" if "Suc (nxt hs i j) < length (ins_at p x hs)"
    using that assms nxt_hit [of hs i j] by (simp add: nth_ins_at)
qed

lemma nxt_ins_after:
  assumes "p \<le> j" "j < length hs"
  shows "nxt (ins_at p x hs) i (Suc j) = Suc (nxt hs i j)"
proof (rule nxt_unique)
  have pl: "p \<le> length hs" using assms by simp
  show "Suc j < Suc (nxt hs i j)" using nxt_gt [of j hs i] by simp
  show "Suc (nxt hs i j) \<le> length (ins_at p x hs)" using nxt_le [OF assms(2), of i] by simp
  show "ins_at p x hs ! m \<le> i" if "Suc j < m" "m < Suc (nxt hs i j)" for m
  proof -
    have "j < m - 1" "m - 1 < nxt hs i j" using that by auto
    then have "hs ! (m - 1) \<le> i" by (rule nxt_between)
    then show ?thesis using that assms pl by (simp add: nth_ins_at)
  qed
  show "i < ins_at p x hs ! Suc (nxt hs i j)" if "Suc (nxt hs i j) < length (ins_at p x hs)"
    using that assms pl nxt_hit [of hs i j] nxt_gt [of j hs i] by (simp add: nth_ins_at)
qed

lemma nxt_ins_new:
  assumes "p \<le> length hs" "j < p" "p \<le> nxt hs i j"
  shows "nxt (ins_at p x hs) i p = Suc (nxt hs i j)"
proof (rule nxt_unique)
  have jl: "j < length hs" using assms by simp
  show "p < Suc (nxt hs i j)" using assms by simp
  show "Suc (nxt hs i j) \<le> length (ins_at p x hs)" using nxt_le [OF jl, of i] by simp
  show "ins_at p x hs ! m \<le> i" if "p < m" "m < Suc (nxt hs i j)" for m
  proof -
    have "j < m - 1" "m - 1 < nxt hs i j" using that assms by auto
    then have "hs ! (m - 1) \<le> i" by (rule nxt_between)
    then show ?thesis using that assms by (simp add: nth_ins_at)
  qed
  show "i < ins_at p x hs ! Suc (nxt hs i j)" if "Suc (nxt hs i j) < length (ins_at p x hs)"
    using that assms nxt_hit [of hs i j] by (simp add: nth_ins_at)
qed

lemma nxt_del_before:
  assumes "q < length hs" "j < q" "nxt hs i j < q"
  shows "nxt (del_at q hs) i j = nxt hs i j"
proof (rule nxt_unique)
  show "j < nxt hs i j" by (rule nxt_gt)
  show "nxt hs i j \<le> length (del_at q hs)" using assms by simp
  show "del_at q hs ! m \<le> i" if "j < m" "m < nxt hs i j" for m
    using that assms nxt_between [of j m hs i] by (simp add: nth_del_at)
  show "i < del_at q hs ! nxt hs i j"
    using assms nxt_hit [of hs i j] by (simp add: nth_del_at)
qed

lemma nxt_del_hit:
  assumes "q < length hs" "j < q" "nxt hs i j = q"
  shows "nxt (del_at q hs) i j = nxt hs i q - 1"
proof (rule nxt_unique)
  have gt: "q < nxt hs i q" by (rule nxt_gt)
  show "j < nxt hs i q - 1" using gt assms by simp
  show "nxt hs i q - 1 \<le> length (del_at q hs)" using nxt_le [OF assms(1), of i] assms by simp
  show "del_at q hs ! m \<le> i" if "j < m" "m < nxt hs i q - 1" for m
  proof (cases "m < q")
    case True
    then show ?thesis using that assms nxt_between [of j m hs i] by (simp add: nth_del_at)
  next
    case False
    then have "q < Suc m" "Suc m < nxt hs i q" using that by auto
    then have "hs ! Suc m \<le> i" by (rule nxt_between)
    then show ?thesis using False assms by (simp add: nth_del_at)
  qed
  show "i < del_at q hs ! (nxt hs i q - 1)" if "nxt hs i q - 1 < length (del_at q hs)"
  proof -
    have a: "\<not> nxt hs i q - 1 < q" "Suc (nxt hs i q - 1) = nxt hs i q" using gt by simp_all
    have "nxt hs i q < length hs" using that assms a by simp
    then have "i < hs ! nxt hs i q" by (rule nxt_hit)
    then show ?thesis using a assms(1) by (simp only: nth_del_at if_False)
  qed
qed

lemma nxt_del_over:
  assumes "q < length hs" "j < q" "q < nxt hs i j"
  shows "nxt (del_at q hs) i j = nxt hs i j - 1"
proof (rule nxt_unique)
  have jl: "j < length hs" using assms by simp
  show "j < nxt hs i j - 1" using assms by simp
  show "nxt hs i j - 1 \<le> length (del_at q hs)" using nxt_le [OF jl, of i] assms by simp
  show "del_at q hs ! m \<le> i" if "j < m" "m < nxt hs i j - 1" for m
  proof (cases "m < q")
    case True
    then show ?thesis using that assms nxt_between [of j m hs i] by (simp add: nth_del_at)
  next
    case False
    then have "j < Suc m" "Suc m < nxt hs i j" using that by auto
    then have "hs ! Suc m \<le> i" by (rule nxt_between)
    then show ?thesis using False assms by (simp add: nth_del_at)
  qed
  show "i < del_at q hs ! (nxt hs i j - 1)" if "nxt hs i j - 1 < length (del_at q hs)"
  proof -
    have a: "\<not> nxt hs i j - 1 < q" "Suc (nxt hs i j - 1) = nxt hs i j" using assms by simp_all
    have "nxt hs i j < length hs" using that assms a by simp
    then have "i < hs ! nxt hs i j" by (rule nxt_hit)
    then show ?thesis using a assms(1) by (simp only: nth_del_at if_False)
  qed
qed

lemma nxt_del_after:
  assumes "q \<le> j" "Suc j < length hs"
  shows "nxt (del_at q hs) i j = nxt hs i (Suc j) - 1"
proof (rule nxt_unique)
  have ql: "q < length hs" using assms by simp
  have gt: "Suc j < nxt hs i (Suc j)" by (rule nxt_gt)
  show "j < nxt hs i (Suc j) - 1" using gt by simp
  show "nxt hs i (Suc j) - 1 \<le> length (del_at q hs)"
    using nxt_le [OF assms(2), of i] ql by simp
  show "del_at q hs ! m \<le> i" if "j < m" "m < nxt hs i (Suc j) - 1" for m
  proof -
    have "Suc j < Suc m" "Suc m < nxt hs i (Suc j)" using that by auto
    then have "hs ! Suc m \<le> i" by (rule nxt_between)
    then show ?thesis using that assms ql by (simp add: nth_del_at)
  qed
  show "i < del_at q hs ! (nxt hs i (Suc j) - 1)"
    if "nxt hs i (Suc j) - 1 < length (del_at q hs)"
  proof -
    have a: "\<not> nxt hs i (Suc j) - 1 < q" "Suc (nxt hs i (Suc j) - 1) = nxt hs i (Suc j)"
      using gt assms by simp_all
    have "nxt hs i (Suc j) < length hs" using that ql a by simp
    then have "i < hs ! nxt hs i (Suc j)" by (rule nxt_hit)
    then show ?thesis using a ql by (simp only: nth_del_at if_False)
  qed
qed

subsection \<open>Predecessors, the level choice, and the whole search by key\<close>

lemma pred_pos_nxt:
  assumes "i < hs ! 0" "0 < p" "p \<le> length hs"
  shows "p \<le> nxt hs i (pred_pos hs i p)"
proof (rule ccontr)
  let ?u = "pred_pos hs i p"
  assume "\<not> p \<le> nxt hs i ?u"
  then have lt: "nxt hs i ?u < p" by simp
  then have "nxt hs i ?u < length hs" using assms by simp
  then have "i < hs ! nxt hs i ?u" by (rule nxt_hit)
  moreover have "hs ! nxt hs i ?u \<le> i"
    using pred_pos_char [OF assms(1,2)] nxt_gt [of ?u hs i] lt by blast
  ultimately show False by simp
qed

lemma pred_pos_eq:
  assumes "j < p" "i < hs ! j" "p \<le> nxt hs i j"
  shows "pred_pos hs i p = j"
proof (rule pred_pos_unique)
  show "j < p" "i < hs ! j" by (rule assms)+
  fix m assume "j < m" "m < p"
  then show "hs ! m \<le> i" using nxt_between [of j m hs i] assms(3) by simp
qed

lemma pred_pos_zero:
  assumes "0 < p" "i < hs ! 0" "\<And>m. 0 < m \<Longrightarrow> m < p \<Longrightarrow> hs ! m \<le> i"
  shows "pred_pos hs i p = 0"
  using assms by (intro pred_pos_unique) auto

lemma pred_pos_last:
  assumes "0 < p" "i < hs ! (p - 1)"
  shows "pred_pos hs i p = p - 1"
  using assms by (intro pred_pos_unique) auto

lemma Choose_Random_Level_loop_ge: "n \<le> Choose_Random_Level_loop i n"
proof (induction i n rule: Choose_Random_Level_loop.induct)
  case (1 i n)
  show ?case
  proof (cases "odd i")
    case True
    then have "n + 1 \<le> Choose_Random_Level_loop (i div 2) (n + 1)" using 1 by simp
    then show ?thesis using True by (subst Choose_Random_Level_loop.simps) simp
  next
    case False
    then show ?thesis by (subst Choose_Random_Level_loop.simps) simp
  qed
qed

lemma Choose_Random_Level_bounds:
  "1 \<le> fst (Choose_Random_Level w) \<and> fst (Choose_Random_Level w) \<le> MAX_LEVEL"
  using Choose_Random_Level_loop_ge [of 1 "Current_Random_Level w"]
  by (auto simp: Choose_Random_Level_def Let_def MAX_LEVEL_def)

lemma Choose_Random_Level_world:
  "snd (Choose_Random_Level w) = w\<lparr>Current_Random_Level := Current_Random_Level w + 1\<rparr>"
  by (simp add: Choose_Random_Level_def Let_def)

lemma Search_by_Key_shape:
  assumes ok: "comparator_ok cmp" and hs: "heap_shape cmp h M"
    and p: "p = ins_pos cmp h k M" and cmp: "Member_Compare sl = cmp"
    and cs: "cache_shape h sl M" and L: "level sl \<le> MAX_LEVEL" and hd: "header sl = M ! 0"
  shows "\<exists>F D fg dl.
       Search_by_Key h sl k = Some (Inr (sl\<lparr>finger := F, distance := D\<rparr>, fg, dl)) \<and>
       length F = MAX_LEVEL \<and> length D = MAX_LEVEL \<and>
       length fg = MAX_LEVEL \<and> length dl = MAX_LEVEL \<and>
       (\<forall>i < level sl. F ! i = M ! pred_pos (map (lv h) M) i p \<and>
                   fg ! i = Some (M ! pred_pos (map (lv h) M) i p) \<and>
                   dl ! i = Some (D ! i)) \<and>
       (\<forall>i. level sl \<le> i \<longrightarrow> F ! i = finger sl ! i \<and> D ! i = distance sl ! i) \<and>
       (spans h M (level sl) \<and> cache_ranked sl M \<longrightarrow>
          (\<forall>i < level sl. D ! i = int (pred_pos (map (lv h) M) i p)))"
proof -
  have Mne: "M \<noteq> []" and top: "lv h (M ! 0) = MAX_LEVEL" using hs by (simp_all add: heap_shape_def)
  have pb: "0 < p" using ins_pos_bounds [OF Mne, of cmp h k] p by simp
  have le: "level sl \<le> lv h (M ! 0)" using L top by simp
  have r: "length (replicate MAX_LEVEL (None :: addr option)) = MAX_LEVEL"
    "length (replicate MAX_LEVEL (None :: int option)) = MAX_LEVEL" by simp_all
  from Search_by_Key_for_shape [OF ok hs p cmp cs L r pb le, of 0]
  obtain F D fg' dl' f' lst' where
    run: "Search_by_Key_for h k (level sl)
            (sl, replicate MAX_LEVEL None, replicate MAX_LEVEL None, M ! 0, 0) =
         Some (Inr (sl\<lparr>finger := F, distance := D\<rparr>, fg', dl', f', lst'))"
    and rest: "length F = MAX_LEVEL \<and> length D = MAX_LEVEL \<and>
       length fg' = MAX_LEVEL \<and> length dl' = MAX_LEVEL \<and>
       (\<forall>i < level sl. F ! i = M ! pred_pos (map (lv h) M) i p \<and>
                   fg' ! i = Some (M ! pred_pos (map (lv h) M) i p) \<and>
                   dl' ! i = Some (D ! i)) \<and>
       (\<forall>i. level sl \<le> i \<longrightarrow> F ! i = finger sl ! i \<and> D ! i = distance sl ! i \<and>
                   fg' ! i = replicate MAX_LEVEL None ! i \<and>
                   dl' ! i = replicate MAX_LEVEL None ! i) \<and>
       (spans h M (level sl) \<and> cache_ranked sl M \<and> (0::int) = int 0 \<longrightarrow>
          (\<forall>i < level sl. D ! i = int (pred_pos (map (lv h) M) i p)))"
    by blast
  have sk: "Search_by_Key h sl k = Some (Inr (sl\<lparr>finger := F, distance := D\<rparr>, fg', dl'))"
    using run hd by (simp add: Search_by_Key_def ret_def)
  show ?thesis
    apply (rule exI [of _ F], rule exI [of _ D], rule exI [of _ fg'], rule exI [of _ dl'])
    using sk rest by simp
qed

subsection \<open>SkipList\_Insert as pointwise updates of the heap\<close>

lemma SkipList_Insert_run:
  assumes ok: "comparator_ok cmp" and hs: "heap_shape cmp h M"
    and cmp: "Member_Compare sl = cmp" and cs: "cache_shape h sl M"
    and hd: "header sl = M ! 0" and h: "heap w = h"
    and L: "1 \<le> level sl" "level sl \<le> MAX_LEVEL"
    and low: "\<And>j. 0 < j \<Longrightarrow> j < length M \<Longrightarrow> lv h (M ! j) \<le> level sl"
    and fresh: "h (brk w) = None" "brk w \<notin> set M"
    and p: "p = ins_pos cmp h k M" and nl: "nl = fst (Choose_Random_Level w)"
    and pp: "pp = (\<lambda>i. pred_pos (map (lv h) M) i p)"
  shows "\<exists>F D h'.
     SkipList_Insert w sl k m =
       Some (Inr (w\<lparr>heap := h', brk := Suc (brk w),
                    Current_Random_Level := Suc (Current_Random_Level w)\<rparr>,
                  sl\<lparr>finger := F, distance := D, level := max (level sl) nl,
                     length_sl := length_sl sl + 1\<rparr>)) \<and>
     length F = MAX_LEVEL \<and> length D = MAX_LEVEL \<and>
     (\<forall>i < level sl. F ! i = M ! pp i) \<and>
     (\<forall>i. level sl \<le> i \<longrightarrow> F ! i = finger sl ! i \<and> D ! i = distance sl ! i) \<and>
     (spans h M (level sl) \<and> cache_ranked sl M \<longrightarrow> (\<forall>i < level sl. D ! i = int (pp i))) \<and>
     (\<forall>b. b \<noteq> brk w \<longrightarrow> (h' b = None \<longleftrightarrow> h b = None) \<and> lv h' b = lv h b \<and>
          node_ok h' b = node_ok h b \<and> keyof h' b = keyof h b \<and> dataof h' b = dataof h b) \<and>
     node_ok h' (brk w) \<and> lv h' (brk w) = nl \<and> keyof h' (brk w) = k \<and>
     dataof h' (brk w) = m \<and> height (the (h' (brk w))) = nl \<and>
     (\<forall>b i. b \<noteq> brk w \<longrightarrow>
        fwd h' b i = (if i < nl \<and> b = M ! pp i then Some (brk w) else fwd h b i)) \<and>
     (\<forall>i < nl. fwd h' (brk w) i = fwd h (M ! pp i) i) \<and>
     (\<forall>b i. b \<noteq> brk w \<longrightarrow>
        dif h' b i =
          (if i < nl \<and> b = M ! pp i
           then (if 0 < level sl then D ! 0 else 0) - (if i < level sl then D ! i else 0) + 1
           else if nl \<le> i \<and> i < max (level sl) nl \<and> b = M ! pp i
           then (if b = M ! 0 \<and> level sl \<le> i \<and> i < nl then length_sl sl + 1 else dif h b i) + 1
           else (if b = M ! 0 \<and> level sl \<le> i \<and> i < nl then length_sl sl + 1 else dif h b i))) \<and>
     (\<forall>i < nl. dif h' (brk w) i =
        (if M ! pp i = M ! 0 \<and> level sl \<le> i \<and> i < nl then length_sl sl + 1
         else dif h (M ! pp i) i)
        - (if 0 < level sl then D ! 0 else 0) + (if i < level sl then D ! i else 0))"
proof -
  let ?hs = "map (lv h) M"
  let ?L = "level sl"
  let ?L' = "max (level sl) nl"
  let ?n = "brk w"
  let ?uu = "\<lambda>i. M ! pp i"
  have Mne: "M \<noteq> []" and top: "lv h (M ! 0) = MAX_LEVEL" using hs by (simp_all add: heap_shape_def)
  have pb: "0 < p" "p \<le> length M" using ins_pos_bounds [OF Mne, of cmp h k] p by simp_all
  have nlb: "1 \<le> nl" "nl \<le> MAX_LEVEL" using Choose_Random_Level_bounds [of w] nl by simp_all
  have L'b: "?L' \<le> MAX_LEVEL" using L nlb by simp
  have L'M: "\<And>i. i < ?L' \<Longrightarrow> i < MAX_LEVEL" using L nlb by arith
  have nlL': "\<And>i. i < nl \<Longrightarrow> i < ?L'" by arith
  have LL': "\<And>i. i < ?L \<Longrightarrow> i < ?L'" by arith
  have ppb: "\<And>i. i < MAX_LEVEL \<Longrightarrow> pp i < p \<and> pp i < length M \<and> i < lv h (M ! pp i)"
    using pred_pos_shape [OF hs pb(1)] pb(2) unfolding pp by fastforce
  have uuok: "\<And>i. i < MAX_LEVEL \<Longrightarrow> node_ok h (?uu i) \<and> i < lv h (?uu i) \<and> ?uu i \<noteq> ?n"
  proof -
    fix i assume i: "i < MAX_LEVEL"
    have "node_ok h (M ! pp i)" using hs ppb [OF i] by (simp add: heap_shape_node_ok)
    moreover have "M ! pp i \<in> set M" using ppb [OF i] by simp
    then have "M ! pp i \<noteq> ?n" using fresh(2) by auto
    ultimately show "node_ok h (?uu i) \<and> i < lv h (?uu i) \<and> ?uu i \<noteq> ?n"
      using ppb [OF i] by simp
  qed
  have pp_hi: "\<And>i. ?L \<le> i \<Longrightarrow> i < MAX_LEVEL \<Longrightarrow> pp i = 0"
  proof -
    fix i assume i: "?L \<le> i" "i < MAX_LEVEL"
    show "pp i = 0" unfolding pp
    proof (rule pred_pos_zero)
      show "0 < p" by (rule pb)
      show "i < ?hs ! 0" using Mne top i by simp
      fix m assume m: "0 < m" "m < p"
      then have "lv h (M ! m) \<le> ?L" using low pb by simp
      then show "?hs ! m \<le> i" using i m pb by simp
    qed
  qed
  \<comment> \<open>the search\<close>
  from Search_by_Key_shape [OF ok hs p cmp cs L(2) hd]
  obtain F D u d where
    sk: "Search_by_Key h sl k = Some (Inr (sl\<lparr>finger := F, distance := D\<rparr>, u, d))"
    and len: "length F = MAX_LEVEL" "length D = MAX_LEVEL" "length u = MAX_LEVEL"
      "length d = MAX_LEVEL"
    and lo: "\<forall>i < ?L. F ! i = M ! pp i \<and> u ! i = Some (M ! pp i) \<and> d ! i = Some (D ! i)"
    and hi: "\<forall>i. ?L \<le> i \<longrightarrow> F ! i = finger sl ! i \<and> D ! i = distance sl ! i"
    and rk: "spans h M ?L \<and> cache_ranked sl M \<longrightarrow> (\<forall>i < ?L. D ! i = int (pp i))"
    unfolding pp by blast
  let ?sl1 = "sl\<lparr>finger := F, distance := D\<rparr>"
  let ?dd = "\<lambda>i. if i < ?L then D ! i else 0"
  have u0: "ini u 0 = Inr (M ! pp 0)" using lo L len nlb by (simp add: ini_ok MAX_LEVEL_def)
  have M0: "0 < MAX_LEVEL" by (simp add: MAX_LEVEL_def)
  have f0: "forward_at h (M ! pp 0) 0 = Inr (fwd h (M ! pp 0) 0)"
    using uuok [OF M0] by (simp add: forward_at_ok)
  \<comment> \<open>the new levels\<close>
  let ?w1 = "w\<lparr>Current_Random_Level := Current_Random_Level w + 1\<rparr>"
  have crl: "Choose_Random_Level w = (nl, ?w1)"
    using nl Choose_Random_Level_world [of w] by (cases "Choose_Random_Level w") simp
  have okh: "node_ok h (M ! 0)" using hs Mne by (simp add: heap_shape_node_ok)
  have grow: "\<exists>h2 u2 d2.
     Insert_grow ?sl1 nl (heap ?w1) u d = Inr (h2, u2, d2, ?sl1\<lparr>level := ?L'\<rparr>) \<and>
     same_nodes h h2 \<and> (\<forall>b j. fwd h2 b j = fwd h b j) \<and>
     length u2 = MAX_LEVEL \<and> length d2 = MAX_LEVEL \<and>
     (\<forall>i. u2 ! i = (if ?L \<le> i \<and> i < nl then Some (M ! 0) else u ! i)) \<and>
     (\<forall>i. d2 ! i = (if ?L \<le> i \<and> i < nl then Some 0 else d ! i)) \<and>
     (\<forall>b j. dif h2 b j =
        (if b = M ! 0 \<and> ?L \<le> j \<and> j < nl then length_sl sl + 1 else dif h b j))"
  proof (cases "nl > ?L")
    case True
    have b: "?L + (nl - ?L) \<le> MAX_LEVEL" using True nlb by simp
    have hd1: "header ?sl1 = M ! 0" using hd by simp
    from Insert_grow_loop [OF okh top hd1 b len(3,4)]
    obtain h2 u2 d2 where
      g: "for_up ?L (nl - ?L) (Insert_grow_body ?sl1) (h, u, d) = Inr (h2, u2, d2)"
      and g2: "same_nodes h h2" "\<forall>b j. fwd h2 b j = fwd h b j"
        "length u2 = MAX_LEVEL" "length d2 = MAX_LEVEL"
        "\<forall>i. u2 ! i = (if ?L \<le> i \<and> i < ?L + (nl - ?L) then Some (M ! 0) else u ! i)"
        "\<forall>i. d2 ! i = (if ?L \<le> i \<and> i < ?L + (nl - ?L) then Some 0 else d ! i)"
        "\<forall>b j. dif h2 b j =
           (if b = M ! 0 \<and> ?L \<le> j \<and> j < ?L + (nl - ?L) then length_sl ?sl1 + 1 else dif h b j)"
      by blast
    have e: "?L + (nl - ?L) = nl" "?L' = nl" using True by simp_all
    show ?thesis
      apply (rule exI [of _ h2], rule exI [of _ u2], rule exI [of _ d2])
      using True g g2 h unfolding e Insert_grow_def by simp
  next
    case False
    then have e: "?L' = ?L" by simp
    show ?thesis
      apply (rule exI [of _ h], rule exI [of _ u], rule exI [of _ d])
      using False h len unfolding e Insert_grow_def by (auto simp: same_nodes_refl)
  qed
  then obtain h2 u2 d2 where
    gr: "Insert_grow ?sl1 nl (heap ?w1) u d = Inr (h2, u2, d2, ?sl1\<lparr>level := ?L'\<rparr>)"
    and s2: "same_nodes h h2" and f2: "\<forall>b j. fwd h2 b j = fwd h b j"
    and l2: "length u2 = MAX_LEVEL" "length d2 = MAX_LEVEL"
    and u2: "\<forall>i. u2 ! i = (if ?L \<le> i \<and> i < nl then Some (M ! 0) else u ! i)"
    and d2: "\<forall>i. d2 ! i = (if ?L \<le> i \<and> i < nl then Some 0 else d ! i)"
    and df2: "\<forall>b j. dif h2 b j =
        (if b = M ! 0 \<and> ?L \<le> j \<and> j < nl then length_sl sl + 1 else dif h b j)"
    by blast
  have u2': "\<And>i. i < ?L' \<Longrightarrow> u2 ! i = Some (?uu i)"
  proof -
    fix i assume i: "i < ?L'"
    show "u2 ! i = Some (?uu i)"
    proof (cases "i < ?L")
      case True
      then show ?thesis using u2 lo by simp
    next
      case False
      then have "pp i = 0" using pp_hi [of i] L'M [OF i] by simp
      moreover have "?L \<le> i \<and> i < nl" using False i by auto
      ultimately show ?thesis using u2 by simp
    qed
  qed
  have d2': "\<And>i. i < ?L' \<Longrightarrow> d2 ! i = Some (?dd i)"
    using d2 lo by auto
  \<comment> \<open>the new element\<close>
  let ?x = "\<lparr>key = k, data = m, height = nl, forward = replicate nl None,
             diff = replicate nl 0\<rparr>"
  let ?h3 = "h2(?n \<mapsto> ?x)"
  let ?w3 = "?w1\<lparr>heap := ?h3, brk := Suc ?n\<rparr>"
  have mk: "MakeNode (?w1\<lparr>heap := h2\<rparr>) nl k m = (?n, ?w3)"
    by (simp add: MakeNode_def)
  have n3: "node_ok ?h3 ?n" "lv ?h3 ?n = nl" "keyof ?h3 ?n = k" "dataof ?h3 ?n = m"
    "height (the (?h3 ?n)) = nl"
    by (simp_all add: node_ok_def lv_def keyof_def dataof_def)
  have o3: "\<And>b. b \<noteq> ?n \<Longrightarrow> (?h3 b = None \<longleftrightarrow> h b = None) \<and> lv ?h3 b = lv h b \<and>
      node_ok ?h3 b = node_ok h b \<and> keyof ?h3 b = keyof h b \<and> dataof ?h3 b = dataof h b \<and>
      (\<forall>j. fwd ?h3 b j = fwd h b j) \<and> (\<forall>j. dif ?h3 b j = dif h2 b j)"
    using s2 f2 by (simp add: same_nodes_def node_ok_def lv_def keyof_def dataof_def fwd_def dif_def)
  have pre3: "\<And>i. i < ?L' \<Longrightarrow> i < length u2 \<and> u2 ! i = Some (?uu i) \<and> node_ok ?h3 (?uu i) \<and>
                 i < lv ?h3 (?uu i) \<and> ?uu i \<noteq> ?n"
  proof -
    fix i assume i: "i < ?L'"
    then have iM: "i < MAX_LEVEL" by (rule L'M)
    show "i < length u2 \<and> u2 ! i = Some (?uu i) \<and> node_ok ?h3 (?uu i) \<and>
                 i < lv ?h3 (?uu i) \<and> ?uu i \<noteq> ?n"
      using u2' [OF i] uuok [OF iM] o3 [of "?uu i"] l2 iM by simp
  qed
  have pre3d: "\<And>i. i < nl \<Longrightarrow> i < length d2 \<and> d2 ! i = Some (?dd i)"
    using d2' nlL' l2 nlb by simp
  have nl0: "0 < nl" using nlb by simp
  have pre3a: "\<And>i. i < nl \<Longrightarrow> i < length u2 \<and> u2 ! i = Some (?uu i) \<and> node_ok ?h3 (?uu i) \<and>
                 i < lv ?h3 (?uu i) \<and> ?uu i \<noteq> ?n"
    using pre3 nlL' by blast
  from Insert_diff_loop [of nl u2 ?uu ?h3 ?n d2 ?dd, OF pre3a pre3d n3(1,2) nl0]
  obtain h4 where
    r4: "for_up 0 nl (Insert_diff_body ?n u2 d2) ?h3 = Inr h4"
    and s4: "same_nodes ?h3 h4" and f4: "\<forall>b j. fwd h4 b j = fwd ?h3 b j"
    and df4: "\<forall>b j. dif h4 b j =
              (if j < nl \<and> b = ?n then dif ?h3 (?uu j) j - ?dd 0 + ?dd j
               else if j < nl \<and> b = ?uu j then ?dd 0 - ?dd j + 1
               else dif ?h3 b j)"
    by blast
  have pre4: "\<And>i. nl \<le> i \<Longrightarrow> i < nl + (?L' - nl) \<Longrightarrow>
                 i < length u2 \<and> u2 ! i = Some (?uu i) \<and> node_ok h4 (?uu i) \<and> i < lv h4 (?uu i)"
    using pre3 s4 by (simp add: same_nodes_node_ok same_nodes_lv)
  from Insert_incr_loop [of nl "?L' - nl" u2 ?uu h4, OF pre4]
  obtain h5 where
    r5: "for_up nl (?L' - nl) (Insert_incr_body u2) h4 = Inr h5"
    and s5: "same_nodes h4 h5" and f5: "\<forall>b j. fwd h5 b j = fwd h4 b j"
    and df5: "\<forall>b j. dif h5 b j =
              (if nl \<le> j \<and> j < nl + (?L' - nl) \<and> b = ?uu j then dif h4 b j + 1 else dif h4 b j)"
    by blast
  have s35: "same_nodes ?h3 h5" using s4 s5 by (rule same_nodes_trans)
  have pre5: "\<And>i. i < nl \<Longrightarrow> i < length u2 \<and> u2 ! i = Some (?uu i) \<and> node_ok h5 (?uu i) \<and>
                 i < lv h5 (?uu i) \<and> ?uu i \<noteq> ?n"
    using pre3a s35 by (simp add: same_nodes_node_ok same_nodes_lv)
  have n5: "node_ok h5 ?n" "lv h5 ?n = nl"
    using n3 s35 by (simp_all add: same_nodes_node_ok same_nodes_lv)
  from Insert_link_loop [of nl u2 ?uu h5 ?n, OF pre5 n5]
  obtain h6 where
    r6: "for_up 0 nl (Insert_link_body ?n u2) h5 = Inr h6"
    and s6: "same_nodes h5 h6" and df6: "\<forall>b j. dif h6 b j = dif h5 b j"
    and f6: "\<forall>b j. fwd h6 b j =
              (if j < nl \<and> b = ?n then fwd h5 (?uu j) j
               else if j < nl \<and> b = ?uu j then Some ?n
               else fwd h5 b j)"
    by blast
  have s36: "same_nodes ?h3 h6" using s35 s6 by (rule same_nodes_trans)
  \<comment> \<open>the result\<close>
  have r4': "for_up 0 nl (Insert_diff_body ?n u2 d2) (heap ?w3) = Inr h4" using r4 by simp
  have r5': "for_up nl (level (?sl1\<lparr>level := ?L'\<rparr>) - nl) (Insert_incr_body u2) h4 = Inr h5"
    using r5 by simp
  have run0: "SkipList_Insert w sl k m =
       ret (?w3\<lparr>heap := h6\<rparr>,
            (?sl1\<lparr>level := ?L'\<rparr>)\<lparr>length_sl := length_sl (?sl1\<lparr>level := ?L'\<rparr>) + 1\<rparr>)"
    unfolding SkipList_Insert_def h
    by (simp only: sk bnd_simps prod.case u0 f0 crl Let_def gr mk r4' r5' r6)
  have run: "SkipList_Insert w sl k m =
       Some (Inr (w\<lparr>heap := h6, brk := Suc (brk w),
                    Current_Random_Level := Suc (Current_Random_Level w)\<rparr>,
                  sl\<lparr>finger := F, distance := D, level := ?L',
                     length_sl := length_sl sl + 1\<rparr>))"
    unfolding run0 by (simp add: ret_def)
  have e: "nl + (?L' - nl) = ?L'" by simp
  have c1: "\<forall>b. b \<noteq> ?n \<longrightarrow> (h6 b = None \<longleftrightarrow> h b = None) \<and> lv h6 b = lv h b \<and>
          node_ok h6 b = node_ok h b \<and> keyof h6 b = keyof h b \<and> dataof h6 b = dataof h b"
  proof (intro allI impI)
    fix b assume b: "b \<noteq> ?n"
    have "(h6 b = None \<longleftrightarrow> ?h3 b = None) \<and> lv h6 b = lv ?h3 b \<and>
          node_ok h6 b = node_ok ?h3 b \<and> keyof h6 b = keyof ?h3 b \<and> dataof h6 b = dataof ?h3 b"
      using s36 unfolding same_nodes_def node_ok_def by simp
    then show "(h6 b = None \<longleftrightarrow> h b = None) \<and> lv h6 b = lv h b \<and>
          node_ok h6 b = node_ok h b \<and> keyof h6 b = keyof h b \<and> dataof h6 b = dataof h b"
      using o3 [OF b] by simp
  qed
  have c2: "node_ok h6 ?n \<and> lv h6 ?n = nl \<and> keyof h6 ?n = k \<and>
     dataof h6 ?n = m \<and> height (the (h6 ?n)) = nl"
    using s36 n3 unfolding same_nodes_def node_ok_def by simp
  have c3: "\<forall>b i. b \<noteq> ?n \<longrightarrow>
        fwd h6 b i = (if i < nl \<and> b = M ! pp i then Some ?n else fwd h b i)"
    using f6 f5 f4 o3 by simp
  have c4: "\<forall>i < nl. fwd h6 ?n i = fwd h (M ! pp i) i"
  proof (intro allI impI)
    fix i assume i: "i < nl"
    then have "?uu i \<noteq> ?n" using pre3a by simp
    then show "fwd h6 ?n i = fwd h (M ! pp i) i" using f6 f5 f4 o3 i by simp
  qed
  have c5: "\<forall>b i. b \<noteq> ?n \<longrightarrow>
        dif h6 b i =
          (if i < nl \<and> b = M ! pp i
           then ?dd 0 - ?dd i + 1
           else if nl \<le> i \<and> i < ?L' \<and> b = M ! pp i
           then (if b = M ! 0 \<and> ?L \<le> i \<and> i < nl then length_sl sl + 1 else dif h b i) + 1
           else (if b = M ! 0 \<and> ?L \<le> i \<and> i < nl then length_sl sl + 1 else dif h b i))"
  proof (intro allI impI)
    fix b i assume b: "b \<noteq> ?n"
    have a: "dif h6 b i = dif h5 b i" using df6 by simp
    have b5: "dif h5 b i =
        (if nl \<le> i \<and> i < ?L' \<and> b = ?uu i then dif h4 b i + 1 else dif h4 b i)"
      using df5 unfolding e by blast
    have b4: "dif h4 b i =
        (if i < nl \<and> b = ?uu i then ?dd 0 - ?dd i + 1 else dif ?h3 b i)"
      using df4 b by simp
    have b3: "dif ?h3 b i =
        (if b = M ! 0 \<and> ?L \<le> i \<and> i < nl then length_sl sl + 1 else dif h b i)"
      using o3 [OF b] df2 by simp
    show "dif h6 b i =
          (if i < nl \<and> b = M ! pp i
           then ?dd 0 - ?dd i + 1
           else if nl \<le> i \<and> i < ?L' \<and> b = M ! pp i
           then (if b = M ! 0 \<and> ?L \<le> i \<and> i < nl then length_sl sl + 1 else dif h b i) + 1
           else (if b = M ! 0 \<and> ?L \<le> i \<and> i < nl then length_sl sl + 1 else dif h b i))"
      unfolding a b5 b4 b3 by auto
  qed
  have c6: "\<forall>i < nl. dif h6 ?n i =
        (if M ! pp i = M ! 0 \<and> ?L \<le> i \<and> i < nl then length_sl sl + 1
         else dif h (M ! pp i) i) - ?dd 0 + ?dd i"
  proof (intro allI impI)
    fix i assume i: "i < nl"
    then have ne: "?uu i \<noteq> ?n" using pre3a by simp
    have a: "dif h6 ?n i = dif h5 ?n i" using df6 by simp
    have "\<And>j. nl \<le> j \<Longrightarrow> j < ?L' \<Longrightarrow> ?uu j \<noteq> ?n" using pre3 by simp
    then have b5: "dif h5 ?n i = dif h4 ?n i" using df5 i by auto
    have b4: "dif h4 ?n i = dif ?h3 (?uu i) i - ?dd 0 + ?dd i" using df4 i by simp
    have b3: "dif ?h3 (?uu i) i =
        (if ?uu i = M ! 0 \<and> ?L \<le> i \<and> i < nl then length_sl sl + 1 else dif h (?uu i) i)"
      using o3 [OF ne] df2 by simp
    show "dif h6 ?n i =
        (if M ! pp i = M ! 0 \<and> ?L \<le> i \<and> i < nl then length_sl sl + 1
         else dif h (M ! pp i) i) - ?dd 0 + ?dd i"
      unfolding a b5 b4 b3 by simp
  qed
  have lo': "\<forall>i < ?L. F ! i = M ! pp i" using lo by simp
  show ?thesis
    apply (rule exI [of _ F], rule exI [of _ D], rule exI [of _ h6])
    apply (intro conjI)
    apply (rule run)
    apply (rule len(1))
    apply (rule len(2))
    apply (rule lo')
    apply (rule hi)
    apply (rule rk)
    apply (rule c1)
    using c2 apply simp
    using c2 apply simp
    using c2 apply simp
    using c2 apply simp
    using c2 apply simp
    apply (rule c3)
    apply (rule c4)
    apply (rule c5)
    apply (rule c6)
    done
qed

subsection \<open>Insertion keeps the invariant\<close>

lemma pred_pos_less: "0 < p \<Longrightarrow> pred_pos hs i p < p"
  by (induction p) (auto simp: less_Suc_eq)

lemma links_insert:
  assumes hs: "heap_shape cmp h M" and pb: "0 < p" "p \<le> length M"
    and n: "n \<notin> set M" and nl: "nl \<le> MAX_LEVEL"
    and lvs: "\<And>b. b \<noteq> n \<Longrightarrow> lv h' b = lv h b" and lvn: "lv h' n = nl"
    and fw: "\<And>b i. b \<noteq> n \<Longrightarrow>
        fwd h' b i = (if i < nl \<and> b = M ! pp i then Some n else fwd h b i)"
    and fwn: "\<And>i. i < nl \<Longrightarrow> fwd h' n i = fwd h (M ! pp i) i"
    and pp: "pp = (\<lambda>i. pred_pos (map (lv h) M) i p)"
  shows "links h' (ins_at p n M)"
  unfolding links_def
proof (intro allI impI)
  let ?hs = "map (lv h) M"
  let ?M' = "ins_at p n M"
  let ?hs' = "map (lv h') ?M'"
  fix j i assume j: "j < length ?M'" and i: "i < lv h' (?M' ! j)"
  have Mne: "M \<noteq> []" and top: "lv h (M ! 0) = MAX_LEVEL" and dist: "distinct M"
    using hs by (simp_all add: heap_shape_def)
  have "\<And>x. x \<in> set M \<Longrightarrow> lv h' x = lv h x" using lvs n by metis
  then have mp: "map (lv h') M = map (lv h) M" by (intro map_cong) auto
  have hs': "?hs' = ins_at p nl ?hs" by (simp only: map_ins_at lvn mp)
  have pl: "p \<le> length ?hs" using pb by simp
  have ppl: "\<And>i. pp i < p" unfolding pp using pb(1) by (rule pred_pos_less)
  have ppn: "\<And>i. i < MAX_LEVEL \<Longrightarrow> i < lv h (M ! pp i) \<and> p \<le> nxt ?hs i (pp i)"
  proof -
    fix i assume "i < MAX_LEVEL"
    then have i0: "i < ?hs ! 0" using Mne top by simp
    have "i < ?hs ! pp i" using pred_pos_char [OF i0 pb(1)] unfolding pp by simp
    moreover have "pp i < length M" using ppl [of i] pb by simp
    moreover have "p \<le> nxt ?hs i (pp i)" unfolding pp using i0 pb(1) pl by (rule pred_pos_nxt)
    ultimately show "i < lv h (M ! pp i) \<and> p \<le> nxt ?hs i (pp i)" by simp
  qed
  have old: "\<And>j i. j < length M \<Longrightarrow> i < lv h (M ! j) \<Longrightarrow>
      fwd h (M ! j) i = (if nxt ?hs i j < length M then Some (M ! nxt ?hs i j) else None)"
    using hs by (rule heap_shape_fwd)
  have shift: "\<And>nx. p \<le> nx \<Longrightarrow>
      (if Suc nx < length ?M' then Some (?M' ! Suc nx) else None) =
      (if nx < length M then Some (M ! nx) else None)"
    using pb by (simp add: nth_ins_at)
  have same: "\<And>nx. nx < p \<Longrightarrow>
      (if nx < length ?M' then Some (?M' ! nx) else None) =
      (if nx < length M then Some (M ! nx) else None)"
    using pb by (simp add: nth_ins_at)
  have neq: "\<And>j. j < length M \<Longrightarrow> M ! j \<noteq> n" using n nth_mem by fastforce
  consider (before) "j < p" | (new) "j = p" | (after) "p < j" by linarith
  then show "fwd h' (?M' ! j) i =
      (if nxt ?hs' i j < length ?M' then Some (?M' ! nxt ?hs' i j) else None)"
  proof cases
    case before
    then have jM: "j < length M" using pb by simp
    have Mj: "?M' ! j = M ! j" using before pb by (simp add: nth_ins_at)
    have ij: "i < lv h (M ! j)" using i Mj lvs [OF neq [OF jM]] by simp
    have eqi: "M ! j = M ! pp i \<longleftrightarrow> j = pp i"
      using dist jM ppl [of i] pb by (simp add: nth_eq_iff_index_eq)
    show ?thesis
    proof (cases "i < nl \<and> j = pp i")
      case True
      then have "p \<le> nxt ?hs i j" using ppn [of i] nl by simp
      then have e: "nxt ?hs' i j = p" unfolding hs' using pl before True
        by (intro nxt_ins_hit) simp_all
      have f: "fwd h' (M ! j) i = Some n" using fw [OF neq [OF jM]] True by simp
      show ?thesis unfolding Mj e f using pb by (simp add: nth_ins_at)
    next
      case False
      then have f: "fwd h' (M ! j) i = fwd h (M ! j) i" using fw [OF neq [OF jM]] eqi by auto
      show ?thesis
      proof (cases "nxt ?hs i j < p")
        case True
        then have e: "nxt ?hs' i j = nxt ?hs i j" unfolding hs' using pl before
          by (intro nxt_ins_before) simp_all
        show ?thesis unfolding Mj e f old [OF jM ij] by (rule same [OF True, symmetric])
      next
        case ge: False
        then have pn: "p \<le> nxt ?hs i j" by simp
        have "pred_pos ?hs i p = j" using before ij jM pn by (intro pred_pos_eq) simp_all
        then have "nl \<le> i" using False unfolding pp by auto
        then have e: "nxt ?hs' i j = Suc (nxt ?hs i j)" unfolding hs' using pl before pn
          by (intro nxt_ins_over) simp_all
        show ?thesis unfolding Mj e f old [OF jM ij] by (rule shift [OF pn, symmetric])
      qed
    qed
  next
    case new
    then have Mj: "?M' ! j = n" using pb by (simp add: nth_ins_at)
    then have inl: "i < nl" using i lvn by simp
    then have iM: "i < MAX_LEVEL" using nl by simp
    have pj: "pp i < length M" using ppl [of i] pb by simp
    have e: "nxt ?hs' i j = Suc (nxt ?hs i (pp i))" unfolding hs' new
      using pl ppl [of i] ppn [OF iM] by (intro nxt_ins_new) simp_all
    have f: "fwd h' n i = fwd h (M ! pp i) i" using fwn [OF inl] .
    have o: "fwd h (M ! pp i) i =
        (if nxt ?hs i (pp i) < length M then Some (M ! nxt ?hs i (pp i)) else None)"
      using old [OF pj] ppn [OF iM] by simp
    have pn: "p \<le> nxt ?hs i (pp i)" using ppn [OF iM] by simp
    show ?thesis unfolding Mj e f o by (rule shift [OF pn, symmetric])
  next
    case after
    then obtain j' where j': "j = Suc j'" "p \<le> j'" by (cases j) auto
    have jM: "j' < length M" using j j' by simp
    have Mj: "?M' ! j = M ! j'" using j' pb by (simp add: nth_ins_at)
    have ij: "i < lv h (M ! j')" using i Mj lvs [OF neq [OF jM]] by simp
    have "M ! j' \<noteq> M ! pp i"
      using dist jM ppl [of i] pb j' by (simp add: nth_eq_iff_index_eq)
    then have f: "fwd h' (M ! j') i = fwd h (M ! j') i" using fw [OF neq [OF jM]] by simp
    have e: "nxt ?hs' i j = Suc (nxt ?hs i j')" unfolding hs' j'
      using j' jM by (intro nxt_ins_after) simp_all
    have pn: "p \<le> nxt ?hs i j'" using nxt_gt [of j' ?hs i] j' by simp
    show ?thesis unfolding Mj e f old [OF jM ij] by (rule shift [OF pn, symmetric])
  qed
qed

lemma spans_insert:
  assumes hs: "heap_shape cmp h M" and pb: "0 < p" "p \<le> length M"
    and n: "n \<notin> set M" and nl: "nl \<le> L'" "L' \<le> MAX_LEVEL"
    and lvs: "\<And>b. b \<noteq> n \<Longrightarrow> lv h' b = lv h b" and lvn: "lv h' n = nl"
    and base: "\<And>j i. j < length M \<Longrightarrow> i < lv h (M ! j) \<Longrightarrow> i < L' \<Longrightarrow>
        base (M ! j) i = int (nxt (map (lv h) M) i j) - int j"
    and dd: "\<And>i. i < L' \<Longrightarrow> dd i = int (pp i)"
    and df: "\<And>b i. b \<noteq> n \<Longrightarrow> i < L' \<Longrightarrow>
        dif h' b i =
          (if i < nl \<and> b = M ! pp i then dd 0 - dd i + 1
           else if nl \<le> i \<and> b = M ! pp i then base b i + 1
           else base b i)"
    and dfn: "\<And>i. i < nl \<Longrightarrow> dif h' n i = base (M ! pp i) i - dd 0 + dd i"
    and pp: "pp = (\<lambda>i. pred_pos (map (lv h) M) i p)"
  shows "spans h' (ins_at p n M) L'"
  unfolding spans_def
proof (intro allI impI)
  let ?hs = "map (lv h) M"
  let ?M' = "ins_at p n M"
  let ?hs' = "map (lv h') ?M'"
  fix j i assume j: "j < length ?M'" and i': "i < lv h' (?M' ! j) \<and> i < L'"
  then have i: "i < lv h' (?M' ! j)" and iL: "i < L'" by simp_all
  have iM: "i < MAX_LEVEL" using iL nl by simp
  have Mne: "M \<noteq> []" and top: "lv h (M ! 0) = MAX_LEVEL" and dist: "distinct M"
    and lv1: "\<forall>j. 0 < j \<and> j < length M \<longrightarrow> 1 \<le> lv h (M ! j)"
    using hs by (simp_all add: heap_shape_def)
  have "\<And>x. x \<in> set M \<Longrightarrow> lv h' x = lv h x" using lvs n by metis
  then have mp: "map (lv h') M = map (lv h) M" by (intro map_cong) auto
  have hs': "?hs' = ins_at p nl ?hs" by (simp only: map_ins_at lvn mp)
  have pl: "p \<le> length ?hs" using pb by simp
  have ppl: "\<And>i. pp i < p" unfolding pp using pb(1) by (rule pred_pos_less)
  have ppn: "\<And>i. i < MAX_LEVEL \<Longrightarrow> i < lv h (M ! pp i) \<and> p \<le> nxt ?hs i (pp i)"
  proof -
    fix i assume "i < MAX_LEVEL"
    then have i0: "i < ?hs ! 0" using Mne top by simp
    have "i < ?hs ! pp i" using pred_pos_char [OF i0 pb(1)] unfolding pp by simp
    moreover have "pp i < length M" using ppl [of i] pb by simp
    moreover have "p \<le> nxt ?hs i (pp i)" unfolding pp using i0 pb(1) pl by (rule pred_pos_nxt)
    ultimately show "i < lv h (M ! pp i) \<and> p \<le> nxt ?hs i (pp i)" by simp
  qed
  have pp0: "pp 0 = p - 1"
    unfolding pp
  proof (rule pred_pos_last)
    show "0 < p" by (rule pb)
    show "0 < ?hs ! (p - 1)"
    proof (cases "p - 1 = 0")
      case True
      then show ?thesis using Mne top by (simp add: MAX_LEVEL_def)
    next
      case False
      then have "1 \<le> lv h (M ! (p - 1))" using lv1 pb by simp
      then show ?thesis using pb by simp
    qed
  qed
  have L0: "0 < L'" using iL by simp
  have dd0: "dd 0 = int p - 1" using dd [OF L0] pp0 pb by simp
  have neq: "\<And>j. j < length M \<Longrightarrow> M ! j \<noteq> n" using n nth_mem by fastforce
  consider (before) "j < p" | (new) "j = p" | (after) "p < j" by linarith
  then show "dif h' (?M' ! j) i = int (nxt ?hs' i j) - int j"
  proof cases
    case before
    then have jM: "j < length M" using pb by simp
    have Mj: "?M' ! j = M ! j" using before pb by (simp add: nth_ins_at)
    have ij: "i < lv h (M ! j)" using i Mj lvs [OF neq [OF jM]] by simp
    have eqi: "M ! j = M ! pp i \<longleftrightarrow> j = pp i"
      using dist jM ppl [of i] pb by (simp add: nth_eq_iff_index_eq)
    have d: "dif h' (M ! j) i =
          (if i < nl \<and> j = pp i then dd 0 - dd i + 1
           else if nl \<le> i \<and> j = pp i then base (M ! j) i + 1
           else base (M ! j) i)"
      using df [OF neq [OF jM] iL] eqi by simp
    have b: "base (M ! j) i = int (nxt ?hs i j) - int j" using base [OF jM ij iL] .
    show ?thesis
    proof (cases "j = pp i")
      case True
      have pn: "p \<le> nxt ?hs i j" using ppn [OF iM] True by simp
      show ?thesis
      proof (cases "i < nl")
        case inl: True
        have e: "nxt ?hs' i j = p" unfolding hs' using pl before pn inl
          by (intro nxt_ins_hit) simp_all
        have "dif h' (M ! j) i = dd 0 - dd i + 1" using d True inl by simp
        then show ?thesis unfolding Mj e using True dd0 dd [OF iL] by simp
      next
        case False
        then have e: "nxt ?hs' i j = Suc (nxt ?hs i j)" unfolding hs' using pl before pn
          by (intro nxt_ins_over) simp_all
        have "dif h' (M ! j) i = base (M ! j) i + 1" using d True False by simp
        then show ?thesis unfolding Mj e using b by simp
      qed
    next
      case False
      have "nxt ?hs i j < p"
      proof (rule ccontr)
        assume "\<not> nxt ?hs i j < p"
        then have "pred_pos ?hs i p = j" using before ij jM by (intro pred_pos_eq) simp_all
        then show False using False unfolding pp by simp
      qed
      then have e: "nxt ?hs' i j = nxt ?hs i j" unfolding hs' using pl before
        by (intro nxt_ins_before) simp_all
      have "dif h' (M ! j) i = base (M ! j) i" using d False by simp
      then show ?thesis unfolding Mj e using b by simp
    qed
  next
    case new
    then have Mj: "?M' ! j = n" using pb by (simp add: nth_ins_at)
    then have inl: "i < nl" using i lvn by simp
    have pj: "pp i < length M" using ppl [of i] pb by simp
    have e: "nxt ?hs' i j = Suc (nxt ?hs i (pp i))" unfolding hs' new
      using pl ppl [of i] ppn [OF iM] by (intro nxt_ins_new) simp_all
    have b: "base (M ! pp i) i = int (nxt ?hs i (pp i)) - int (pp i)"
      using base [OF pj _ iL] ppn [OF iM] by simp
    show ?thesis unfolding Mj e using new dfn [OF inl] b dd0 dd [OF iL] by simp
  next
    case after
    then obtain j' where j': "j = Suc j'" "p \<le> j'" by (cases j) auto
    have jM: "j' < length M" using j j' by simp
    have Mj: "?M' ! j = M ! j'" using j' pb by (simp add: nth_ins_at)
    have ij: "i < lv h (M ! j')" using i Mj lvs [OF neq [OF jM]] by simp
    have "M ! j' \<noteq> M ! pp i"
      using dist jM ppl [of i] pb j' by (simp add: nth_eq_iff_index_eq)
    then have d: "dif h' (M ! j') i = base (M ! j') i" using df [OF neq [OF jM] iL] by simp
    have e: "nxt ?hs' i j = Suc (nxt ?hs i j')" unfolding hs' j'
      using j' jM by (intro nxt_ins_after) simp_all
    show ?thesis unfolding Mj e using d base [OF jM ij iL] j' by simp
  qed
qed

lemma ins_at_Cons: "0 < p \<Longrightarrow> ins_at p x (a # xs) = a # ins_at (p - 1) x xs"
  by (cases p) (simp_all add: ins_at_def)

lemma keys_sorted_insert:
  assumes ok: "comparator_ok cmp" and srt: "keys_sorted cmp h M"
    and p: "p = ins_pos cmp h k M" and Mne: "M \<noteq> []" and n: "n \<notin> set M"
    and ks: "\<And>b. b \<noteq> n \<Longrightarrow> keyof h' b = keyof h b" and kn: "keyof h' n = k"
  shows "keys_sorted cmp h' (ins_at p n M)"
  unfolding keys_sorted_def
proof (intro allI impI)
  let ?M' = "ins_at p n M"
  fix j1 j2 assume a: "0 < j1 \<and> j1 < j2 \<and> j2 < length ?M'"
  have pb: "0 < p" "p \<le> length M" using ins_pos_bounds [OF Mne, of cmp h k] p by simp_all
  have neq: "\<And>j. j < length M \<Longrightarrow> M ! j \<noteq> n" using n nth_mem by fastforce
  have key: "\<And>j. j < length ?M' \<Longrightarrow> keyof h' (?M' ! j) =
      (if j < p then keyof h (M ! j) else if j = p then k else keyof h (M ! (j - 1)))"
  proof -
    fix j assume j: "j < length ?M'"
    show "keyof h' (?M' ! j) =
      (if j < p then keyof h (M ! j) else if j = p then k else keyof h (M ! (j - 1)))"
    proof (cases "j = p")
      case True
      then show ?thesis using pb kn by (simp add: nth_ins_at)
    next
      case False
      then have "?M' ! j = M ! (if j < p then j else j - 1)" using pb by (simp add: nth_ins_at)
      moreover have "(if j < p then j else j - 1) < length M" using j False pb by auto
      ultimately show ?thesis using False ks neq by auto
    qed
  qed
  have old: "\<And>a b. 0 < a \<Longrightarrow> a < b \<Longrightarrow> b < length M \<Longrightarrow>
      cmp (keyof h (M ! a)) (keyof h (M ! b)) \<le> 0"
    using srt unfolding keys_sorted_def by blast
  have lt: "\<And>a. 0 < a \<Longrightarrow> a < p \<Longrightarrow> cmp (keyof h (M ! a)) k \<le> 0"
  proof -
    fix a assume "0 < a" "a < p"
    then have "0 < cmp k (keyof h (M ! a))" using ins_pos_less [of a cmp h k M] p by simp
    then have "cmp (keyof h (M ! a)) k < 0" using ok unfolding comparator_ok_def by blast
    then show "cmp (keyof h (M ! a)) k \<le> 0" by simp
  qed
  have ge: "\<And>b. p \<le> b \<Longrightarrow> b < length M \<Longrightarrow> cmp k (keyof h (M ! b)) \<le> 0"
  proof -
    fix b assume "p \<le> b" "b < length M"
    then have "\<not> 0 < cmp k (keyof h (M ! b))" using ins_pos_geq [OF ok srt, of k b] p by simp
    then show "cmp k (keyof h (M ! b)) \<le> 0" by simp
  qed
  have j1: "j1 < length ?M'" using a by simp
  have j2: "j2 < length ?M'" using a by simp
  show "cmp (keyof h' (?M' ! j1)) (keyof h' (?M' ! j2)) \<le> 0"
    unfolding key [OF j1] key [OF j2]
    using a old [of j1 j2] old [of j1 "j2 - 1"] old [of "j1 - 1" "j2 - 1"] lt [of j1]
      ge [of "j2 - 1"] pb
    by (auto simp: not_less)
qed

lemma SkipList_Insert_shape:
  assumes ok: "comparator_ok (Member_Compare sl)" and sh: "shape w sl N"
    and p: "p = ins_pos (Member_Compare sl) (heap w) k (header sl # N)"
  shows "\<exists>w' sl'. SkipList_Insert w sl k m = Some (Inr (w', sl')) \<and>
     shape w' sl' (ins_at (p - 1) (brk w) N) \<and>
     (ranked w sl N \<longrightarrow> ranked w' sl' (ins_at (p - 1) (brk w) N)) \<and>
     Member_Compare sl' = Member_Compare sl \<and> header sl' = header sl \<and>
     brk w \<notin> set N \<and>
     keyof (heap w') (brk w) = k \<and> dataof (heap w') (brk w) = m \<and>
     (\<forall>a \<in> set N. keyof (heap w') a = keyof (heap w) a \<and>
                    dataof (heap w') a = dataof (heap w) a) \<and>
     Current_Random_Level w' = Suc (Current_Random_Level w) \<and>
     height (the (heap w' (brk w))) = fst (Choose_Random_Level w)"
proof -
  define cmp where "cmp = Member_Compare sl"
  define h where "h = heap w"
  define M where "M = header sl # N"
  define n where "n = brk w"
  define nl where "nl = fst (Choose_Random_Level w)"
  define pp where "pp = (\<lambda>i. pred_pos (map (lv h) M) i p)"
  define L where "L = level sl"
  define L' where "L' = max (level sl) nl"
  have hs: "heap_shape cmp h M" and cs: "cache_shape h sl M"
    and Lb: "1 \<le> level sl" "level sl \<le> MAX_LEVEL"
    and lowN: "\<forall>a \<in> set N. lv h a \<le> level sl"
    and free: "\<forall>a. brk w \<le> a \<longrightarrow> h a = None"
    using sh unfolding shape_def cmp_def h_def M_def by simp_all
  have okc: "comparator_ok cmp" using ok by (simp add: cmp_def)
  have pc: "p = ins_pos cmp h k M" using p by (simp add: cmp_def h_def M_def)
  have hd: "header sl = M ! 0" by (simp add: M_def)
  have lenM: "length M = Suc (length N)" by (simp add: M_def)
  have low: "\<And>j. 0 < j \<Longrightarrow> j < length M \<Longrightarrow> lv h (M ! j) \<le> level sl"
  proof -
    fix j assume "0 < j" "j < length M"
    then obtain j' where "j = Suc j'" "j' < length N" unfolding M_def by (cases j) auto
    then show "lv h (M ! j) \<le> level sl" using lowN by (simp add: M_def)
  qed
  have Mne: "M \<noteq> []" and top: "lv h (M ! 0) = MAX_LEVEL" and dist: "distinct M"
    and nok: "\<forall>a \<in> set M. node_ok h a" and k0: "keyof h (M ! 0) = None"
    and lv1: "\<forall>j. 0 < j \<and> j < length M \<longrightarrow> 1 \<le> lv h (M ! j)"
    and srt: "keys_sorted cmp h M"
    using hs by (simp_all add: heap_shape_def)
  have nfree: "h n = None" using free by (simp add: n_def)
  have nM: "n \<notin> set M"
  proof
    assume "n \<in> set M"
    then have "node_ok h n" using nok by simp
    then show False using nfree by (simp add: node_ok_def)
  qed
  have pb: "0 < p" "p \<le> length M" using ins_pos_bounds [OF Mne, of cmp h k] pc by simp_all
  have nlb: "1 \<le> nl" "nl \<le> MAX_LEVEL"
    using Choose_Random_Level_bounds [of w] by (simp_all add: nl_def)
  have L'b: "1 \<le> L'" "L' \<le> MAX_LEVEL" "nl \<le> L'" "level sl \<le> L'"
    using Lb nlb by (simp_all add: L'_def)
  have L'M: "\<And>i. i < L' \<Longrightarrow> i < MAX_LEVEL" using L'b by simp
  have L'cases: "\<And>i. i < L' \<Longrightarrow> \<not> i < level sl \<Longrightarrow> level sl \<le> i \<and> i < nl"
    unfolding L'_def by arith
  from SkipList_Insert_run [OF okc hs cmp_def [symmetric] cs hd h_def [symmetric] Lb low
      nfree [unfolded n_def] nM [unfolded n_def] pc nl_def pp_def, of m]
  obtain F D h' where
    run: "SkipList_Insert w sl k m =
       Some (Inr (w\<lparr>heap := h', brk := Suc (brk w),
                    Current_Random_Level := Suc (Current_Random_Level w)\<rparr>,
                  sl\<lparr>finger := F, distance := D, level := max (level sl) nl,
                     length_sl := length_sl sl + 1\<rparr>))"
    and len: "length F = MAX_LEVEL" "length D = MAX_LEVEL"
    and lo: "\<forall>i < level sl. F ! i = M ! pp i"
    and hi: "\<forall>i. level sl \<le> i \<longrightarrow> F ! i = finger sl ! i \<and> D ! i = distance sl ! i"
    and rk: "spans h M (level sl) \<and> cache_ranked sl M \<longrightarrow> (\<forall>i < level sl. D ! i = int (pp i))"
    and oth: "\<forall>b. b \<noteq> brk w \<longrightarrow> (h' b = None \<longleftrightarrow> h b = None) \<and> lv h' b = lv h b \<and>
          node_ok h' b = node_ok h b \<and> keyof h' b = keyof h b \<and> dataof h' b = dataof h b"
    and new: "node_ok h' (brk w)" "lv h' (brk w) = nl" "keyof h' (brk w) = k"
      "dataof h' (brk w) = m" "height (the (h' (brk w))) = nl"
    and fw: "\<forall>b i. b \<noteq> brk w \<longrightarrow>
        fwd h' b i = (if i < nl \<and> b = M ! pp i then Some (brk w) else fwd h b i)"
    and fwn: "\<forall>i < nl. fwd h' (brk w) i = fwd h (M ! pp i) i"
    and df: "\<forall>b i. b \<noteq> brk w \<longrightarrow>
        dif h' b i =
          (if i < nl \<and> b = M ! pp i
           then (if 0 < level sl then D ! 0 else 0) - (if i < level sl then D ! i else 0) + 1
           else if nl \<le> i \<and> i < max (level sl) nl \<and> b = M ! pp i
           then (if b = M ! 0 \<and> level sl \<le> i \<and> i < nl then length_sl sl + 1 else dif h b i) + 1
           else (if b = M ! 0 \<and> level sl \<le> i \<and> i < nl then length_sl sl + 1 else dif h b i))"
    and dfn: "\<forall>i < nl. dif h' (brk w) i =
        (if M ! pp i = M ! 0 \<and> level sl \<le> i \<and> i < nl then length_sl sl + 1
         else dif h (M ! pp i) i)
        - (if 0 < level sl then D ! 0 else 0) + (if i < level sl then D ! i else 0)"
    by blast
  define w' where "w' = w\<lparr>heap := h', brk := Suc (brk w),
                    Current_Random_Level := Suc (Current_Random_Level w)\<rparr>"
  define sl' where "sl' = sl\<lparr>finger := F, distance := D, level := max (level sl) nl,
                     length_sl := length_sl sl + 1\<rparr>"
  define M' where "M' = ins_at p n M"
  have M'eq: "header sl' # ins_at (p - 1) (brk w) N = M'"
    unfolding M'_def M_def sl'_def n_def using pb(1) by (simp add: ins_at_Cons)
  have lenM': "length M' = Suc (length M)" by (simp add: M'_def)
  have setM': "set M' = insert n (set M)" by (simp add: M'_def set_ins_at)
  have lvs: "\<And>b. b \<noteq> n \<Longrightarrow> lv h' b = lv h b" using oth by (simp add: n_def)
  have lvn: "lv h' n = nl" using new by (simp add: n_def)
  have M'0: "M' ! 0 = M ! 0" using pb by (simp add: M'_def nth_ins_at)
  have M0n: "M ! 0 \<noteq> n" using nM Mne nth_mem [of 0 M] by auto
  have ppl: "\<And>i. pp i < p" unfolding pp_def using pb(1) by (rule pred_pos_less)
  have ppM': "\<And>i. M' ! pp i = M ! pp i" using ppl pb by (simp add: M'_def nth_ins_at)
  have ppn: "\<And>i. M ! pp i \<noteq> n"
  proof -
    fix i
    have "pp i < length M" using ppl [of i] pb by simp
    then show "M ! pp i \<noteq> n" using nM nth_mem by fastforce
  qed
  have pplv: "\<And>i. i < MAX_LEVEL \<Longrightarrow> i < lv h (M ! pp i)"
    using pred_pos_shape(2) [OF hs pb(1) _ pb(2)] unfolding pp_def by simp
  have pp_hi: "\<And>i. level sl \<le> i \<Longrightarrow> i < MAX_LEVEL \<Longrightarrow> pp i = 0"
  proof -
    fix i assume i: "level sl \<le> i" "i < MAX_LEVEL"
    show "pp i = 0" unfolding pp_def
    proof (rule pred_pos_zero)
      show "0 < p" by (rule pb)
      show "i < map (lv h) M ! 0" using Mne top i by simp
      fix m' assume m': "0 < m'" "m' < p"
      then have "lv h (M ! m') \<le> level sl" using low pb by simp
      then show "map (lv h) M ! m' \<le> i" using i m' pb by simp
    qed
  qed
  \<comment> \<open>the shape of the heap\<close>
  have hs': "heap_shape cmp h' M'"
    unfolding heap_shape_def
  proof (intro conjI)
    show "M' \<noteq> []" by (simp add: M'_def ins_at_def)
    show "distinct M'" unfolding M'_def using dist nM by (rule distinct_ins_at)
    show "\<forall>a \<in> set M'. node_ok h' a"
    proof
      fix a assume "a \<in> set M'"
      then have "a = n \<or> a \<in> set M" using setM' by simp
      then show "node_ok h' a"
      proof
        assume "a = n"
        then show ?thesis using new(1) by (simp add: n_def)
      next
        assume a: "a \<in> set M"
        then have "a \<noteq> brk w" using nM by (auto simp: n_def)
        then show ?thesis using oth nok a by simp
      qed
    qed
    show "lv h' (M' ! 0) = MAX_LEVEL" using M'0 lvs [OF M0n] top by simp
    show "keyof h' (M' ! 0) = None" using M'0 M0n oth k0 by (simp add: n_def)
    show "\<forall>j. 0 < j \<and> j < length M' \<longrightarrow> 1 \<le> lv h' (M' ! j)"
    proof (intro allI impI)
      fix j assume j: "0 < j \<and> j < length M'"
      show "1 \<le> lv h' (M' ! j)"
      proof (cases "j = p")
        case True
        then show ?thesis using pb lvn nlb by (simp add: M'_def nth_ins_at)
      next
        case False
        let ?j = "if j < p then j else j - 1"
        have e: "M' ! j = M ! ?j" using False pb by (simp add: M'_def nth_ins_at)
        have b: "0 < ?j" "?j < length M" using j False pb lenM' by auto
        then have "M ! ?j \<noteq> n" using nM nth_mem by fastforce
        then show ?thesis using e lv1 b lvs by simp
      qed
    qed
    show "links h' M'"
      unfolding M'_def
      using hs pb nM nlb(2) lvs lvn _ _ pp_def
    proof (rule links_insert)
      show "\<And>b i. b \<noteq> n \<Longrightarrow>
          fwd h' b i = (if i < nl \<and> b = M ! pp i then Some n else fwd h b i)"
        using fw by (simp add: n_def)
      show "\<And>i. i < nl \<Longrightarrow> fwd h' n i = fwd h (M ! pp i) i"
        using fwn by (simp add: n_def)
    qed
    show "keys_sorted cmp h' M'"
      unfolding M'_def
      using okc srt pc Mne nM
    proof (rule keys_sorted_insert)
      show "\<And>b. b \<noteq> n \<Longrightarrow> keyof h' b = keyof h b" using oth by (simp add: n_def)
      show "keyof h' n = k" using new by (simp add: n_def)
    qed
  qed
  have cs': "cache_shape h' sl' M'"
    unfolding cache_shape_def
  proof (intro conjI allI impI)
    show "length (finger sl') = MAX_LEVEL" "length (distance sl') = MAX_LEVEL"
      using len by (simp_all add: sl'_def)
    fix i assume i: "i < MAX_LEVEL"
    show "\<exists>c<length M'. finger sl' ! i = M' ! c \<and> i < lv h' (M' ! c)"
    proof (cases "i < level sl")
      case True
      have "finger sl' ! i = M' ! pp i" using lo True ppM' by (simp add: sl'_def)
      moreover have "i < lv h' (M' ! pp i)" using pplv [OF i] ppM' lvs [OF ppn] by simp
      moreover have "pp i < length M'" using ppl [of i] pb lenM' by simp
      ultimately show ?thesis by blast
    next
      case False
      from cs i obtain c where c: "c < length M" "finger sl ! i = M ! c" "i < lv h (M ! c)"
        unfolding cache_shape_def by blast
      have "c = 0"
      proof (rule ccontr)
        assume "c \<noteq> 0"
        then have "lv h (M ! c) \<le> level sl" using low c(1) by simp
        then show False using c(3) False by simp
      qed
      then have "finger sl' ! i = M' ! 0" using hi False c M'0 by (simp add: sl'_def)
      moreover have "i < lv h' (M' ! 0)" using M'0 lvs [OF M0n] top i by simp
      moreover have "0 < length M'" using lenM' by simp
      ultimately show ?thesis by blast
    qed
  qed
  have shape': "shape w' sl' (ins_at (p - 1) (brk w) N)"
    unfolding shape_def M'eq
  proof (intro conjI)
    show "heap_shape (Member_Compare sl') (heap w') M'"
      using hs' by (simp add: sl'_def w'_def cmp_def)
    show "cache_shape (heap w') sl' M'" using cs' by (simp add: w'_def)
    show "1 \<le> level sl'" "level sl' \<le> MAX_LEVEL"
      using Lb nlb by (simp_all add: sl'_def le_max_iff_disj)
    show "\<forall>a \<in> set (ins_at (p - 1) (brk w) N). lv (heap w') a \<le> level sl'"
    proof
      fix a assume "a \<in> set (ins_at (p - 1) (brk w) N)"
      then have "a = n \<or> a \<in> set N" by (simp add: set_ins_at n_def)
      then show "lv (heap w') a \<le> level sl'"
      proof
        assume "a = n"
        then show ?thesis using lvn by (simp add: w'_def sl'_def le_max_iff_disj)
      next
        assume a: "a \<in> set N"
        then have "a \<noteq> n" using nM by (auto simp: M_def)
        then have "lv h' a \<le> level sl" using lvs lowN a by simp
        then show ?thesis by (simp add: w'_def sl'_def le_max_iff_disj)
      qed
    qed
    show "\<forall>a. brk w' \<le> a \<longrightarrow> heap w' a = None"
      using free oth by (simp add: w'_def)
  qed
  \<comment> \<open>the spans\<close>
  have ranked': "ranked w' sl' (ins_at (p - 1) (brk w) N)" if rkd: "ranked w sl N"
  proof -
    have sp: "spans h M (level sl)" and cr: "cache_ranked sl M"
      and ln: "length_sl sl = int (length N)"
      using rkd unfolding ranked_def h_def M_def by simp_all
    have Dlo: "\<And>i. i < level sl \<Longrightarrow> D ! i = int (pp i)" using rk sp cr by simp
    define base where "base = (\<lambda>b i. if b = M ! 0 \<and> level sl \<le> i \<and> i < nl
        then length_sl sl + 1 else dif h b i)"
    define dd where "dd = (\<lambda>i. if i < level sl then D ! i else 0)"
    have sp': "spans h' M' L'"
      unfolding M'_def
      using hs pb nM L'b(3,2) lvs lvn _ _ _ _ pp_def
    proof (rule spans_insert [where base = base and dd = dd])
      fix j i assume j: "j < length M" and i: "i < lv h (M ! j)" "i < L'"
      show "base (M ! j) i = int (nxt (map (lv h) M) i j) - int j"
      proof (cases "i < level sl")
        case True
        then have "base (M ! j) i = dif h (M ! j) i" by (simp add: base_def)
        then show ?thesis using sp j i True unfolding spans_def by simp
      next
        case False
        then have il: "level sl \<le> i" "i < nl" using L'cases [OF i(2)] by simp_all
        have j0: "j = 0"
        proof (rule ccontr)
          assume "j \<noteq> 0"
          then have "lv h (M ! j) \<le> level sl" using low j by simp
          then show False using i il by simp
        qed
        have "nxt (map (lv h) M) i 0 = length M"
        proof (rule nxt_unique)
          show "0 < length M" using Mne by simp
          show "length M \<le> length (map (lv h) M)" by simp
          fix m' assume "0 < m'" "m' < length M"
          then show "map (lv h) M ! m' \<le> i" using low [of m'] il by simp
        qed simp
        moreover have "base (M ! 0) i = int (length M)" using il ln lenM by (simp add: base_def)
        ultimately show ?thesis using j0 by simp
      qed
    next
      fix i assume i: "i < L'"
      show "dd i = int (pp i)"
      proof (cases "i < level sl")
        case True
        then show ?thesis using Dlo by (simp add: dd_def)
      next
        case False
        then have "pp i = 0" using pp_hi [of i] L'M [OF i] by simp
        then show ?thesis using False by (simp add: dd_def)
      qed
    next
      fix b i assume b: "b \<noteq> n" and i: "i < L'"
      have "dif h' b i =
          (if i < nl \<and> b = M ! pp i
           then (if 0 < level sl then D ! 0 else 0) - (if i < level sl then D ! i else 0) + 1
           else if nl \<le> i \<and> i < max (level sl) nl \<and> b = M ! pp i
           then (if b = M ! 0 \<and> level sl \<le> i \<and> i < nl then length_sl sl + 1 else dif h b i) + 1
           else (if b = M ! 0 \<and> level sl \<le> i \<and> i < nl then length_sl sl + 1 else dif h b i))"
        using df b unfolding n_def by blast
      then show "dif h' b i =
          (if i < nl \<and> b = M ! pp i then dd 0 - dd i + 1
           else if nl \<le> i \<and> b = M ! pp i then base b i + 1
           else base b i)"
        using i unfolding base_def dd_def L'_def by simp
    next
      fix i assume i: "i < nl"
      show "dif h' n i = base (M ! pp i) i - dd 0 + dd i"
        using dfn i unfolding base_def dd_def n_def by simp
    qed
    have dist': "distinct M'" using hs' by (simp add: heap_shape_def)
    have cr': "cache_ranked sl' M'"
      unfolding cache_ranked_def
    proof (intro allI impI)
      fix i c assume i: "i < MAX_LEVEL" and c: "0 < c \<and> c < length M' \<and> finger sl' ! i = M' ! c"
      show "distance sl' ! i = int c"
      proof (cases "i < level sl")
        case True
        have "M' ! pp i = M' ! c" using lo True ppM' c by (simp add: sl'_def)
        moreover have "pp i < length M'" using ppl [of i] pb lenM' by simp
        ultimately have "pp i = c" using dist' c by (simp add: nth_eq_iff_index_eq)
        then show ?thesis using Dlo [OF True] by (simp add: sl'_def)
      next
        case False
        from cs i obtain c0 where c0: "c0 < length M" "finger sl ! i = M ! c0" "i < lv h (M ! c0)"
          unfolding cache_shape_def by blast
        have "c0 = 0"
        proof (rule ccontr)
          assume "c0 \<noteq> 0"
          then have "lv h (M ! c0) \<le> level sl" using low c0(1) by simp
          then show False using c0(3) False by simp
        qed
        then have "M' ! 0 = M' ! c" using hi False c0 M'0 c by (simp add: sl'_def)
        then have "0 = c" using dist' c lenM' by (simp add: nth_eq_iff_index_eq)
        then show ?thesis using c by simp
      qed
    qed
    show ?thesis
      unfolding ranked_def M'eq
      using sp' cr' ln by (simp add: w'_def sl'_def L'_def)
  qed
  have nN: "brk w \<notin> set N" using nM by (simp add: M_def n_def)
  have keep: "\<forall>a \<in> set N. keyof (heap w') a = keyof (heap w) a \<and>
                    dataof (heap w') a = dataof (heap w) a"
  proof
    fix a assume "a \<in> set N"
    then have "a \<noteq> brk w" using nN by auto
    then show "keyof (heap w') a = keyof (heap w) a \<and> dataof (heap w') a = dataof (heap w) a"
      using oth by (simp add: w'_def h_def)
  qed
  show ?thesis
    apply (rule exI [of _ w'], rule exI [of _ sl'])
    apply (intro conjI)
    using run apply (simp add: w'_def sl'_def)
    apply (rule shape')
    using ranked' apply blast
    apply (simp add: sl'_def)
    apply (simp add: sl'_def)
    apply (rule nN)
    using new apply (simp add: w'_def)
    using new apply (simp add: w'_def)
    apply (rule keep)
    apply (simp add: w'_def)
    using new apply (simp add: w'_def nl_def)
    done
qed

subsection \<open>Deletion keeps the invariant\<close>

lemma Delete_shrink_ok:
  assumes "node_ok h hdr"
  shows "L \<le> lv h hdr \<Longrightarrow>
     \<exists>l. Delete_shrink h hdr L = Inr l \<and> l \<le> L \<and> (1 \<le> L \<longrightarrow> 1 \<le> l) \<and>
         (\<forall>i. l \<le> i \<and> i < L \<longrightarrow> fwd h hdr i = None)"
proof (induction L)
  case 0
  then show ?case by simp
next
  case (Suc L)
  have f: "forward_at h hdr L = Inr (fwd h hdr L)" using assms Suc.prems by (simp add: forward_at_ok)
  show ?case
  proof (cases "L = 0")
    case True
    then show ?thesis by simp
  next
    case False
    show ?thesis
    proof (cases "fwd h hdr L = None")
      case None: True
      from Suc.IH Suc.prems obtain l where l: "Delete_shrink h hdr L = Inr l" "l \<le> L"
        "1 \<le> L \<longrightarrow> 1 \<le> l" "\<forall>i. l \<le> i \<and> i < L \<longrightarrow> fwd h hdr i = None" by auto
      have "\<forall>i. l \<le> i \<and> i < Suc L \<longrightarrow> fwd h hdr i = None"
        using l(4) None by (auto simp: less_Suc_eq)
      then show ?thesis using l False f None by simp
    next
      case Some: False
      then have "Delete_shrink h hdr (Suc L) = Inr (Suc L)" using False f by auto
      moreover have "\<forall>i. Suc L \<le> i \<and> i < Suc L \<longrightarrow> fwd h hdr i = None" by auto
      ultimately show ?thesis by (intro exI [of _ "Suc L"]) simp
    qed
  qed
qed

lemma SkipList_Delete_run:
  assumes ok: "comparator_ok cmp" and hs: "heap_shape cmp h M"
    and cmp: "Member_Compare sl = cmp" and cs: "cache_shape h sl M"
    and hd: "header sl = M ! 0" and h: "heap w = h"
    and L: "1 \<le> level sl" "level sl \<le> MAX_LEVEL"
    and p: "p = ins_pos cmp h k M"
    and pp: "pp = (\<lambda>i. pred_pos (map (lv h) M) i p)"
  shows "\<exists>F D.
     length F = MAX_LEVEL \<and> length D = MAX_LEVEL \<and>
     (\<forall>i < level sl. F ! i = M ! pp i) \<and>
     (\<forall>i. level sl \<le> i \<longrightarrow> F ! i = finger sl ! i \<and> D ! i = distance sl ! i) \<and>
     (spans h M (level sl) \<and> cache_ranked sl M \<longrightarrow> (\<forall>i < level sl. D ! i = int (pp i))) \<and>
     (if p < length M \<and> cmp (keyof h (M ! p)) k = 0
      then \<exists>h' l.
        SkipList_Delete w sl k =
          Some (Inr (w\<lparr>heap := h'\<rparr>,
                     sl\<lparr>finger := F, distance := D, level := l,
                        length_sl := length_sl sl - 1\<rparr>, 1)) \<and>
        1 \<le> l \<and> l \<le> level sl \<and>
        (\<forall>i. l \<le> i \<and> i < level sl \<longrightarrow> fwd h' (M ! 0) i = None) \<and>
        h' (M ! p) = None \<and>
        (\<forall>b. b \<noteq> M ! p \<longrightarrow> (h' b = None \<longleftrightarrow> h b = None) \<and> lv h' b = lv h b \<and>
           node_ok h' b = node_ok h b \<and> keyof h' b = keyof h b \<and> dataof h' b = dataof h b) \<and>
        (\<forall>b i. b \<noteq> M ! p \<longrightarrow>
           fwd h' b i =
             (if i < level sl \<and> b = M ! pp i \<and> fwd h (M ! pp i) i = Some (M ! p)
              then fwd h (M ! p) i else fwd h b i)) \<and>
        (\<forall>b i. b \<noteq> M ! p \<longrightarrow>
           dif h' b i =
             (if i < level sl \<and> b = M ! pp i
              then (if fwd h (M ! pp i) i \<noteq> Some (M ! p) then dif h b i - 1
                    else dif h b i + (dif h (M ! p) i - 1))
              else dif h b i))
      else SkipList_Delete w sl k = Some (Inr (w, sl\<lparr>finger := F, distance := D\<rparr>, 0)))"
proof -
  let ?hs = "map (lv h) M"
  let ?L = "level sl"
  let ?uu = "\<lambda>i. M ! pp i"
  have Mne: "M \<noteq> []" and top: "lv h (M ! 0) = MAX_LEVEL" and dist: "distinct M"
    and lv1: "\<forall>j. 0 < j \<and> j < length M \<longrightarrow> 1 \<le> lv h (M ! j)"
    using hs by (simp_all add: heap_shape_def)
  have pb: "0 < p" "p \<le> length M" using ins_pos_bounds [OF Mne, of cmp h k] p by simp_all
  have M0: "0 < MAX_LEVEL" by (simp add: MAX_LEVEL_def)
  have ppl: "\<And>i. pp i < p" unfolding pp using pb(1) by (rule pred_pos_less)
  have ppM: "\<And>i. pp i < length M" using ppl pb(2) by (meson less_le_trans)
  have pplv: "\<And>i. i < MAX_LEVEL \<Longrightarrow> i < lv h (M ! pp i)"
    using pred_pos_shape(2) [OF hs pb(1) _ pb(2)] unfolding pp by simp
  have uok: "\<And>i. node_ok h (?uu i)" using hs ppM by (rule heap_shape_node_ok)
  have pp0: "pp 0 = p - 1"
    unfolding pp
  proof (rule pred_pos_last)
    show "0 < p" by (rule pb)
    show "0 < ?hs ! (p - 1)"
    proof (cases "p - 1 = 0")
      case True
      then show ?thesis using Mne top by (simp add: MAX_LEVEL_def)
    next
      case False
      then have "1 \<le> lv h (M ! (p - 1))" using lv1 pb by simp
      then show ?thesis using pb by simp
    qed
  qed
  have n0: "nxt ?hs 0 (pp 0) = p"
  proof (rule nxt_unique)
    show "pp 0 < p" by (rule ppl)
    show "p \<le> length ?hs" using pb by simp
    show "\<And>m'. pp 0 < m' \<Longrightarrow> m' < p \<Longrightarrow> ?hs ! m' \<le> 0" using pp0 by simp
    show "p < length ?hs \<Longrightarrow> 0 < ?hs ! p"
    proof -
      assume a: "p < length ?hs"
      then have "1 \<le> lv h (M ! p)" using lv1 pb by simp
      then show "0 < ?hs ! p" using a by simp
    qed
  qed
  have f0v: "fwd h (M ! pp 0) 0 = (if p < length M then Some (M ! p) else None)"
    using heap_shape_fwd [OF hs ppM pplv [OF M0]] n0 by simp
  from Search_by_Key_shape [OF ok hs p cmp cs L(2) hd]
  obtain F D u d where
    sk: "Search_by_Key h sl k = Some (Inr (sl\<lparr>finger := F, distance := D\<rparr>, u, d))"
    and len: "length F = MAX_LEVEL" "length D = MAX_LEVEL" "length u = MAX_LEVEL"
      "length d = MAX_LEVEL"
    and lo: "\<forall>i < ?L. F ! i = M ! pp i \<and> u ! i = Some (M ! pp i) \<and> d ! i = Some (D ! i)"
    and hi: "\<forall>i. ?L \<le> i \<longrightarrow> F ! i = finger sl ! i \<and> D ! i = distance sl ! i"
    and rk: "spans h M ?L \<and> cache_ranked sl M \<longrightarrow> (\<forall>i < ?L. D ! i = int (pp i))"
    unfolding pp by blast
  let ?sl1 = "sl\<lparr>finger := F, distance := D\<rparr>"
  have u0: "ini u 0 = Inr (M ! pp 0)" using lo L len by (simp add: ini_ok MAX_LEVEL_def)
  have f0: "forward_at h (M ! pp 0) 0 = Inr (if p < length M then Some (M ! p) else None)"
    using uok pplv [OF M0] f0v by (simp add: forward_at_ok)
  have lo': "\<forall>i < ?L. F ! i = M ! pp i" using lo by simp
  have c1: "Member_Compare ?sl1 = cmp" using cmp by simp
  show ?thesis
  proof (cases "p < length M \<and> cmp (keyof h (M ! p)) k = 0")
    case False
    have hit: "(case (if p < length M then Some (M ! p) else None) of None \<Rightarrow> Inr False
                | Some n \<Rightarrow> bndE (key_at h n) (\<lambda>kn. Inr (Member_Compare ?sl1 kn k = 0)))
               = Inr False"
    proof (cases "p < length M")
      case True
      then have "node_ok h (M ! p)" using hs by (simp add: heap_shape_node_ok)
      then show ?thesis using True False cmp by (simp add: key_at_ok)
    next
      case False
      then show ?thesis by simp
    qed
    have "SkipList_Delete w sl k = ret (w, ?sl1, 0)"
      unfolding SkipList_Delete_def h
      by (simp only: sk bnd_simps prod.case u0 f0 hit if_False)
    then have run: "SkipList_Delete w sl k = Some (Inr (w, ?sl1, 0))" by (simp add: ret_def)
    show ?thesis
      apply (rule exI [of _ F], rule exI [of _ D])
      using False len(1,2) lo' hi rk run by simp
  next
    case True
    let ?n = "M ! p"
    have pM: "p < length M" using True by simp
    have okn: "node_ok h ?n" using hs pM by (rule heap_shape_node_ok)
    have hit: "bndE (key_at h (M ! p)) (\<lambda>kn. Inr (Member_Compare ?sl1 kn k = 0)) = Inr True"
      using True okn cmp by (simp add: key_at_ok)
    have pS: "(if p < length M then Some (M ! p) else None) = Some ?n" using pM by simp
    have pre: "\<And>i. i < ?L \<Longrightarrow> i < length u \<and> u ! i = Some (?uu i) \<and> node_ok h (?uu i) \<and>
                 i < lv h (?uu i) \<and> ?uu i \<noteq> ?n \<and> (fwd h (?uu i) i = Some ?n \<longrightarrow> i < lv h ?n)"
    proof -
      fix i assume i: "i < ?L"
      then have iM: "i < MAX_LEVEL" using L by simp
      have ne: "?uu i \<noteq> ?n" using dist ppM [of i] pM ppl [of i] by (simp add: nth_eq_iff_index_eq)
      have "fwd h (?uu i) i = Some ?n \<longrightarrow> i < lv h ?n"
      proof
        assume a: "fwd h (?uu i) i = Some ?n"
        let ?x = "nxt ?hs i (pp i)"
        have e: "fwd h (?uu i) i = (if ?x < length M then Some (M ! ?x) else None)"
          using heap_shape_fwd [OF hs ppM pplv [OF iM]] .
        then have x: "?x < length M" "M ! ?x = M ! p" using a by (auto split: if_splits)
        then have "?x = p" using dist pM by (simp add: nth_eq_iff_index_eq)
        moreover have "i < ?hs ! ?x" using nxt_hit [of ?hs i "pp i"] x(1) by simp
        ultimately show "i < lv h ?n" using pM by simp
      qed
      then show "i < length u \<and> u ! i = Some (?uu i) \<and> node_ok h (?uu i) \<and>
                 i < lv h (?uu i) \<and> ?uu i \<noteq> ?n \<and> (fwd h (?uu i) i = Some ?n \<longrightarrow> i < lv h ?n)"
        using lo i iM len uok pplv [OF iM] ne by simp
    qed
    from Delete_unlink_loop [of ?L u ?uu h ?n, OF pre okn]
    obtain h1 where r1: "for_up 0 ?L (Delete_unlink_body ?n u) h = Inr h1"
      and s1: "same_nodes h h1"
      and f1: "\<forall>b j. fwd h1 b j =
              (if j < ?L \<and> b = ?uu j \<and> fwd h (?uu j) j = Some ?n then fwd h ?n j else fwd h b j)"
      and d1: "\<forall>b j. dif h1 b j =
              (if j < ?L \<and> b = ?uu j
               then (if fwd h (?uu j) j \<noteq> Some ?n then dif h b j - 1
                     else dif h b j + (dif h ?n j - 1))
               else dif h b j)"
      by blast
    have r1': "for_up 0 (level ?sl1) (Delete_unlink_body ?n u) h = Inr h1" using r1 by simp
    have na1: "node_at h1 ?n = Inr (the (h1 ?n))"
      using okn s1 by (simp add: node_at_ok same_nodes_node_ok)
    let ?h2 = "h1(?n := None)"
    let ?sl2 = "?sl1\<lparr>length_sl := length_sl ?sl1 - 1\<rparr>"
    have o2: "\<And>b. b \<noteq> ?n \<Longrightarrow> (?h2 b = None \<longleftrightarrow> h b = None) \<and> lv ?h2 b = lv h b \<and>
           node_ok ?h2 b = node_ok h b \<and> keyof ?h2 b = keyof h b \<and> dataof ?h2 b = dataof h b \<and>
           (\<forall>i. fwd ?h2 b i = fwd h1 b i) \<and> (\<forall>i. dif ?h2 b i = dif h1 b i)"
      using s1 by (simp add: same_nodes_def node_ok_def lv_def keyof_def dataof_def fwd_def dif_def)
    have u0n: "M ! pp 0 \<noteq> ?n" using pre [of 0] L by simp
    have ok20: "node_ok ?h2 (M ! pp 0)" "0 < lv ?h2 (M ! pp 0)"
      using o2 [OF u0n] uok [of 0] pplv [OF M0] by simp_all
    have f2: "forward_at ?h2 (M ! pp 0) 0 = Inr (fwd ?h2 (M ! pp 0) 0)"
      using ok20 by (simp add: forward_at_ok)
    have "0 < length M" using Mne by simp
    then have hn: "M ! 0 \<noteq> ?n" using dist pM pb by (simp add: nth_eq_iff_index_eq)
    have okh2: "node_ok ?h2 (M ! 0)" "?L \<le> lv ?h2 (M ! 0)"
      using o2 [OF hn] heap_shape_node_ok [OF hs, of 0] Mne top L by simp_all
    from Delete_shrink_ok [OF okh2]
    obtain l where sh: "Delete_shrink ?h2 (M ! 0) ?L = Inr l" and lb: "l \<le> ?L" "1 \<le> l"
      and emp: "\<forall>i. l \<le> i \<and> i < ?L \<longrightarrow> fwd ?h2 (M ! 0) i = None"
      using L by auto
    have sh': "Delete_shrink ?h2 (header ?sl2) (level ?sl2) = Inr l" using sh hd by simp
    have "SkipList_Delete w sl k = ret (w\<lparr>heap := ?h2\<rparr>, ?sl2\<lparr>level := l\<rparr>, 1)"
      unfolding SkipList_Delete_def h
      by (simp only: sk bnd_simps prod.case u0 f0 hit if_True pS option.case r1' na1 Let_def f2 sh')
    then have run: "SkipList_Delete w sl k =
          Some (Inr (w\<lparr>heap := ?h2\<rparr>,
                     sl\<lparr>finger := F, distance := D, level := l,
                        length_sl := length_sl sl - 1\<rparr>, 1))"
      by (simp add: ret_def)
    have c2: "\<forall>b. b \<noteq> ?n \<longrightarrow> (?h2 b = None \<longleftrightarrow> h b = None) \<and> lv ?h2 b = lv h b \<and>
           node_ok ?h2 b = node_ok h b \<and> keyof ?h2 b = keyof h b \<and> dataof ?h2 b = dataof h b"
      using o2 by blast
    have c3: "\<forall>b i. b \<noteq> ?n \<longrightarrow>
           fwd ?h2 b i =
             (if i < ?L \<and> b = M ! pp i \<and> fwd h (M ! pp i) i = Some ?n
              then fwd h ?n i else fwd h b i)"
      using o2 f1 by simp
    have c4: "\<forall>b i. b \<noteq> ?n \<longrightarrow>
           dif ?h2 b i =
             (if i < ?L \<and> b = M ! pp i
              then (if fwd h (M ! pp i) i \<noteq> Some ?n then dif h b i - 1
                    else dif h b i + (dif h ?n i - 1))
              else dif h b i)"
      using o2 d1 by simp
    have inner: "\<exists>h' l.
        SkipList_Delete w sl k =
          Some (Inr (w\<lparr>heap := h'\<rparr>,
                     sl\<lparr>finger := F, distance := D, level := l,
                        length_sl := length_sl sl - 1\<rparr>, 1)) \<and>
        1 \<le> l \<and> l \<le> level sl \<and>
        (\<forall>i. l \<le> i \<and> i < level sl \<longrightarrow> fwd h' (M ! 0) i = None) \<and>
        h' (M ! p) = None \<and>
        (\<forall>b. b \<noteq> M ! p \<longrightarrow> (h' b = None \<longleftrightarrow> h b = None) \<and> lv h' b = lv h b \<and>
           node_ok h' b = node_ok h b \<and> keyof h' b = keyof h b \<and> dataof h' b = dataof h b) \<and>
        (\<forall>b i. b \<noteq> M ! p \<longrightarrow>
           fwd h' b i =
             (if i < level sl \<and> b = M ! pp i \<and> fwd h (M ! pp i) i = Some (M ! p)
              then fwd h (M ! p) i else fwd h b i)) \<and>
        (\<forall>b i. b \<noteq> M ! p \<longrightarrow>
           dif h' b i =
             (if i < level sl \<and> b = M ! pp i
              then (if fwd h (M ! pp i) i \<noteq> Some (M ! p) then dif h b i - 1
                    else dif h b i + (dif h (M ! p) i - 1))
              else dif h b i))"
      apply (rule exI [of _ ?h2], rule exI [of _ l])
      apply (intro conjI)
      apply (rule run)
      apply (rule lb(2))
      apply (rule lb(1))
      apply (rule emp)
      apply simp
      apply (rule c2)
      apply (rule c3)
      apply (rule c4)
      done
    show ?thesis
      apply (rule exI [of _ F], rule exI [of _ D])
      apply (intro conjI)
      apply (rule len(1))
      apply (rule len(2))
      apply (rule lo')
      apply (rule hi)
      apply (rule rk)
      apply (subst if_P [OF True])
      apply (rule inner)
      done
  qed
qed

lemma del_at_Cons: "0 < p \<Longrightarrow> del_at p (a # xs) = a # del_at (p - 1) xs"
  by (cases p) (simp_all add: del_at_def)

lemma links_delete:
  assumes hs: "heap_shape cmp h M" and pb: "0 < p" "p < length M"
    and low: "\<And>j. 0 < j \<Longrightarrow> j < length M \<Longrightarrow> lv h (M ! j) \<le> L" and LM: "L \<le> MAX_LEVEL"
    and lvs: "\<And>b. b \<noteq> M ! p \<Longrightarrow> lv h' b = lv h b"
    and fw: "\<And>b i. b \<noteq> M ! p \<Longrightarrow>
        fwd h' b i =
          (if i < L \<and> b = M ! pp i \<and> fwd h (M ! pp i) i = Some (M ! p)
           then fwd h (M ! p) i else fwd h b i)"
    and pp: "pp = (\<lambda>i. pred_pos (map (lv h) M) i p)"
  shows "links h' (del_at p M)"
  unfolding links_def
proof (intro allI impI)
  let ?hs = "map (lv h) M"
  let ?M' = "del_at p M"
  let ?hs' = "map (lv h') ?M'"
  fix j i assume j: "j < length ?M'" and i: "i < lv h' (?M' ! j)"
  have Mne: "M \<noteq> []" and top: "lv h (M ! 0) = MAX_LEVEL" and dist: "distinct M"
    using hs by (simp_all add: heap_shape_def)
  have lenM': "length ?M' = length M - 1" using pb by simp
  have notin: "M ! p \<notin> set ?M'" using dist pb(2) by (rule nth_del_at_notin)
  have "\<And>x. x \<in> set ?M' \<Longrightarrow> lv h' x = lv h x" using lvs notin by metis
  then have mp: "map (lv h') ?M' = map (lv h) ?M'" by (intro map_cong) auto
  have hs': "?hs' = del_at p ?hs" unfolding mp by (rule map_del_at)
  have pl: "p < length ?hs" using pb by simp
  have ppl: "\<And>i. pp i < p" unfolding pp using pb(1) by (rule pred_pos_less)
  have lvM: "\<And>j. j < length M \<Longrightarrow> lv h (M ! j) \<le> MAX_LEVEL"
  proof -
    fix j assume "j < length M"
    then show "lv h (M ! j) \<le> MAX_LEVEL" using low [of j] top LM by (cases "j = 0") auto
  qed
  have old: "\<And>j i. j < length M \<Longrightarrow> i < lv h (M ! j) \<Longrightarrow>
      fwd h (M ! j) i = (if nxt ?hs i j < length M then Some (M ! nxt ?hs i j) else None)"
    using hs by (rule heap_shape_fwd)
  have shift: "\<And>nx. p < nx \<Longrightarrow>
      (if nx - 1 < length ?M' then Some (?M' ! (nx - 1)) else None) =
      (if nx < length M then Some (M ! nx) else None)"
    using pb by (auto simp: nth_del_at)
  have same: "\<And>nx. nx < p \<Longrightarrow>
      (if nx < length ?M' then Some (?M' ! nx) else None) =
      (if nx < length M then Some (M ! nx) else None)"
    using pb by (auto simp: nth_del_at)
  have ppeq: "\<And>j i. j < p \<Longrightarrow> i < lv h (M ! j) \<Longrightarrow> p \<le> nxt ?hs i j \<Longrightarrow> pp i = j"
    unfolding pp using pb by (intro pred_pos_eq) simp_all
  have ppge: "\<And>i. i < MAX_LEVEL \<Longrightarrow> p \<le> nxt ?hs i (pp i)"
    unfolding pp using Mne top pb by (intro pred_pos_nxt) simp_all
  show "fwd h' (?M' ! j) i =
      (if nxt ?hs' i j < length ?M' then Some (?M' ! nxt ?hs' i j) else None)"
  proof (cases "j < p")
    case True
    then have jM: "j < length M" using pb by simp
    have Mj: "?M' ! j = M ! j" using True pb by (simp add: nth_del_at)
    have bn: "M ! j \<noteq> M ! p" using dist jM pb True by (simp add: nth_eq_iff_index_eq)
    have ij: "i < lv h (M ! j)" using i Mj lvs [OF bn] by simp
    have iM: "i < MAX_LEVEL" using ij lvM [OF jM] by simp
    have eqi: "M ! j = M ! pp i \<longleftrightarrow> j = pp i"
      using dist jM ppl [of i] pb by (simp add: nth_eq_iff_index_eq)
    have o: "fwd h (M ! j) i = (if nxt ?hs i j < length M then Some (M ! nxt ?hs i j) else None)"
      using old [OF jM ij] .
    consider (lt) "nxt ?hs i j < p" | (eq) "nxt ?hs i j = p" | (gt) "p < nxt ?hs i j"
      by linarith
    then show ?thesis
    proof cases
      case lt
      have "j \<noteq> pp i" using ppge [OF iM] lt by auto
      then have f: "fwd h' (M ! j) i = fwd h (M ! j) i" using fw [OF bn] eqi by simp
      have e: "nxt ?hs' i j = nxt ?hs i j" unfolding hs' using pl True lt
        by (intro nxt_del_before) simp_all
      show ?thesis unfolding Mj e f o by (rule same [OF lt, symmetric])
    next
      case eq
      have pj: "pp i = j" using ppeq [OF True ij] eq by simp
      have ip: "i < lv h (M ! p)" using nxt_hit [of ?hs i j] eq pl by simp
      then have iL: "i < L" using low [OF pb] by simp
      have "fwd h (M ! pp i) i = Some (M ! p)" using o eq pb pj by simp
      then have f: "fwd h' (M ! j) i = fwd h (M ! p) i" using fw [OF bn] pj iL by simp
      have o2: "fwd h (M ! p) i =
          (if nxt ?hs i p < length M then Some (M ! nxt ?hs i p) else None)"
        using old [OF pb(2) ip] .
      have e: "nxt ?hs' i j = nxt ?hs i p - 1" unfolding hs' using pl True eq
        by (intro nxt_del_hit) simp_all
      show ?thesis unfolding Mj e f o2 by (rule shift [OF nxt_gt, symmetric])
    next
      case gt
      have "fwd h (M ! j) i \<noteq> Some (M ! p)"
        using o gt dist pb by (auto simp: nth_eq_iff_index_eq)
      then have f: "fwd h' (M ! j) i = fwd h (M ! j) i" using fw [OF bn] by auto
      have e: "nxt ?hs' i j = nxt ?hs i j - 1" unfolding hs' using pl True gt
        by (intro nxt_del_over) simp_all
      show ?thesis unfolding Mj e f o by (rule shift [OF gt, symmetric])
    qed
  next
    case False
    then have pj: "p \<le> j" by simp
    have jM: "Suc j < length M" using j lenM' by simp
    have Mj: "?M' ! j = M ! Suc j" using False pb by (simp add: nth_del_at)
    have bn: "M ! Suc j \<noteq> M ! p" using dist jM pb pj by (simp add: nth_eq_iff_index_eq)
    have ij: "i < lv h (M ! Suc j)" using i Mj lvs [OF bn] by simp
    have "M ! Suc j \<noteq> M ! pp i"
      using dist jM ppl [of i] pb pj by (simp add: nth_eq_iff_index_eq)
    then have f: "fwd h' (M ! Suc j) i = fwd h (M ! Suc j) i" using fw [OF bn] by simp
    have e: "nxt ?hs' i j = nxt ?hs i (Suc j) - 1" unfolding hs' using pj jM
      by (intro nxt_del_after) simp_all
    have gt: "p < nxt ?hs i (Suc j)" using nxt_gt [of "Suc j" ?hs i] pj by simp
    show ?thesis unfolding Mj e f old [OF jM ij] by (rule shift [OF gt, symmetric])
  qed
qed

lemma spans_delete:
  assumes hs: "heap_shape cmp h M" and pb: "0 < p" "p < length M"
    and low: "\<And>j. 0 < j \<Longrightarrow> j < length M \<Longrightarrow> lv h (M ! j) \<le> L" and LM: "L \<le> MAX_LEVEL"
    and lvs: "\<And>b. b \<noteq> M ! p \<Longrightarrow> lv h' b = lv h b"
    and sp: "spans h M L"
    and df: "\<And>b i. b \<noteq> M ! p \<Longrightarrow>
        dif h' b i =
          (if i < L \<and> b = M ! pp i
           then (if fwd h (M ! pp i) i \<noteq> Some (M ! p) then dif h b i - 1
                 else dif h b i + (dif h (M ! p) i - 1))
           else dif h b i)"
    and pp: "pp = (\<lambda>i. pred_pos (map (lv h) M) i p)"
  shows "spans h' (del_at p M) L"
  unfolding spans_def
proof (intro allI impI)
  let ?hs = "map (lv h) M"
  let ?M' = "del_at p M"
  let ?hs' = "map (lv h') ?M'"
  fix j i assume j: "j < length ?M'" and i': "i < lv h' (?M' ! j) \<and> i < L"
  then have i: "i < lv h' (?M' ! j)" and iL: "i < L" by simp_all
  have iM: "i < MAX_LEVEL" using iL LM by simp
  have Mne: "M \<noteq> []" and top: "lv h (M ! 0) = MAX_LEVEL" and dist: "distinct M"
    using hs by (simp_all add: heap_shape_def)
  have lenM': "length ?M' = length M - 1" using pb by simp
  have notin: "M ! p \<notin> set ?M'" using dist pb(2) by (rule nth_del_at_notin)
  have "\<And>x. x \<in> set ?M' \<Longrightarrow> lv h' x = lv h x" using lvs notin by metis
  then have mp: "map (lv h') ?M' = map (lv h) ?M'" by (intro map_cong) auto
  have hs': "?hs' = del_at p ?hs" unfolding mp by (rule map_del_at)
  have pl: "p < length ?hs" using pb by simp
  have ppl: "\<And>i. pp i < p" unfolding pp using pb(1) by (rule pred_pos_less)
  have old: "\<And>j i. j < length M \<Longrightarrow> i < lv h (M ! j) \<Longrightarrow>
      fwd h (M ! j) i = (if nxt ?hs i j < length M then Some (M ! nxt ?hs i j) else None)"
    using hs by (rule heap_shape_fwd)
  have osp: "\<And>j. j < length M \<Longrightarrow> i < lv h (M ! j) \<Longrightarrow>
      dif h (M ! j) i = int (nxt ?hs i j) - int j"
    using sp iL unfolding spans_def by simp
  have ppeq: "\<And>j i. j < p \<Longrightarrow> i < lv h (M ! j) \<Longrightarrow> p \<le> nxt ?hs i j \<Longrightarrow> pp i = j"
    unfolding pp using pb by (intro pred_pos_eq) simp_all
  have ppge: "\<And>i. i < MAX_LEVEL \<Longrightarrow> p \<le> nxt ?hs i (pp i)"
    unfolding pp using Mne top pb by (intro pred_pos_nxt) simp_all
  show "dif h' (?M' ! j) i = int (nxt ?hs' i j) - int j"
  proof (cases "j < p")
    case True
    then have jM: "j < length M" using pb by simp
    have Mj: "?M' ! j = M ! j" using True pb by (simp add: nth_del_at)
    have bn: "M ! j \<noteq> M ! p" using dist jM pb True by (simp add: nth_eq_iff_index_eq)
    have ij: "i < lv h (M ! j)" using i Mj lvs [OF bn] by simp
    have eqi: "M ! j = M ! pp i \<longleftrightarrow> j = pp i"
      using dist jM ppl [of i] pb by (simp add: nth_eq_iff_index_eq)
    have o: "fwd h (M ! j) i = (if nxt ?hs i j < length M then Some (M ! nxt ?hs i j) else None)"
      using old [OF jM ij] .
    have d: "dif h' (M ! j) i =
          (if j = pp i
           then (if fwd h (M ! pp i) i \<noteq> Some (M ! p) then dif h (M ! j) i - 1
                 else dif h (M ! j) i + (dif h (M ! p) i - 1))
           else dif h (M ! j) i)"
      using df [OF bn] iL eqi by simp
    consider (lt) "nxt ?hs i j < p" | (eq) "nxt ?hs i j = p" | (gt) "p < nxt ?hs i j"
      by linarith
    then show ?thesis
    proof cases
      case lt
      have "j \<noteq> pp i" using ppge [OF iM] lt by auto
      then have f: "dif h' (M ! j) i = dif h (M ! j) i" using d by simp
      have e: "nxt ?hs' i j = nxt ?hs i j" unfolding hs' using pl True lt
        by (intro nxt_del_before) simp_all
      show ?thesis unfolding Mj e f using osp [OF jM ij] .
    next
      case eq
      have pj: "pp i = j" using ppeq [OF True ij] eq by simp
      have ip: "i < lv h (M ! p)" using nxt_hit [of ?hs i j] eq pl by simp
      have "fwd h (M ! pp i) i = Some (M ! p)" using o eq pb pj by simp
      then have f: "dif h' (M ! j) i = dif h (M ! j) i + (dif h (M ! p) i - 1)"
        using d pj by simp
      have e: "nxt ?hs' i j = nxt ?hs i p - 1" unfolding hs' using pl True eq
        by (intro nxt_del_hit) simp_all
      have "p < nxt ?hs i p" by (rule nxt_gt)
      then show ?thesis
        unfolding Mj e f using osp [OF jM ij] osp [OF pb(2) ip] eq by simp
    next
      case gt
      have pj: "pp i = j" using ppeq [OF True ij] gt by simp
      have "fwd h (M ! j) i \<noteq> Some (M ! p)"
        using o gt dist pb by (auto simp: nth_eq_iff_index_eq)
      then have f: "dif h' (M ! j) i = dif h (M ! j) i - 1" using d pj by simp
      have e: "nxt ?hs' i j = nxt ?hs i j - 1" unfolding hs' using pl True gt
        by (intro nxt_del_over) simp_all
      show ?thesis unfolding Mj e f using osp [OF jM ij] gt by simp
    qed
  next
    case False
    then have pj: "p \<le> j" by simp
    have jM: "Suc j < length M" using j lenM' by simp
    have Mj: "?M' ! j = M ! Suc j" using False pb by (simp add: nth_del_at)
    have bn: "M ! Suc j \<noteq> M ! p" using dist jM pb pj by (simp add: nth_eq_iff_index_eq)
    have ij: "i < lv h (M ! Suc j)" using i Mj lvs [OF bn] by simp
    have "M ! Suc j \<noteq> M ! pp i"
      using dist jM ppl [of i] pb pj by (simp add: nth_eq_iff_index_eq)
    then have f: "dif h' (M ! Suc j) i = dif h (M ! Suc j) i" using df [OF bn] by simp
    have e: "nxt ?hs' i j = nxt ?hs i (Suc j) - 1" unfolding hs' using pj jM
      by (intro nxt_del_after) simp_all
    have gt: "Suc j < nxt ?hs i (Suc j)" by (rule nxt_gt)
    show ?thesis unfolding Mj e f using osp [OF jM ij] gt by simp
  qed
qed

lemma keys_sorted_delete:
  assumes srt: "keys_sorted cmp h M" and dist: "distinct M" and pb: "0 < p" "p < length M"
    and ks: "\<And>b. b \<noteq> M ! p \<Longrightarrow> keyof h' b = keyof h b"
  shows "keys_sorted cmp h' (del_at p M)"
  unfolding keys_sorted_def
proof (intro allI impI)
  let ?M' = "del_at p M"
  fix j1 j2 assume a: "0 < j1 \<and> j1 < j2 \<and> j2 < length ?M'"
  have notin: "M ! p \<notin> set ?M'" using dist pb(2) by (rule nth_del_at_notin)
  have key: "\<And>j. j < length ?M' \<Longrightarrow> keyof h' (?M' ! j) =
      keyof h (M ! (if j < p then j else Suc j))"
  proof -
    fix j assume j: "j < length ?M'"
    then have "?M' ! j \<noteq> M ! p" using notin nth_mem by fastforce
    then have "keyof h' (?M' ! j) = keyof h (?M' ! j)" by (rule ks)
    then show "keyof h' (?M' ! j) = keyof h (M ! (if j < p then j else Suc j))"
      using pb by (simp add: nth_del_at)
  qed
  have old: "\<And>a b. 0 < a \<Longrightarrow> a < b \<Longrightarrow> b < length M \<Longrightarrow>
      cmp (keyof h (M ! a)) (keyof h (M ! b)) \<le> 0"
    using srt unfolding keys_sorted_def by blast
  have j1: "j1 < length ?M'" and j2: "j2 < length ?M'" using a by simp_all
  show "cmp (keyof h' (?M' ! j1)) (keyof h' (?M' ! j2)) \<le> 0"
    unfolding key [OF j1] key [OF j2]
    using a pb by (intro old) auto
qed

lemma cache_after_search:
  assumes hs: "heap_shape cmp h M" and cs: "cache_shape h sl M"
    and pb: "0 < p" "p \<le> length M" and L: "level sl \<le> MAX_LEVEL"
    and len: "length F = MAX_LEVEL" "length D = MAX_LEVEL"
    and lo: "\<forall>i < level sl. F ! i = M ! pp i"
    and hi: "\<forall>i. level sl \<le> i \<longrightarrow> F ! i = finger sl ! i \<and> D ! i = distance sl ! i"
    and rk: "spans h M (level sl) \<and> cache_ranked sl M \<longrightarrow> (\<forall>i < level sl. D ! i = int (pp i))"
    and pp: "pp = (\<lambda>i. pred_pos (map (lv h) M) i p)"
  shows "cache_shape h (sl\<lparr>finger := F, distance := D\<rparr>) M"
    and "spans h M (level sl) \<Longrightarrow> cache_ranked sl M \<Longrightarrow>
           cache_ranked (sl\<lparr>finger := F, distance := D\<rparr>) M"
proof -
  have dist: "distinct M" using hs by (simp add: heap_shape_def)
  have ppl: "\<And>i. pp i < length M"
    using pred_pos_less [OF pb(1)] pb(2) unfolding pp by (meson less_le_trans)
  have pplv: "\<And>i. i < MAX_LEVEL \<Longrightarrow> i < lv h (M ! pp i)"
    using pred_pos_shape(2) [OF hs pb(1) _ pb(2)] unfolding pp by simp
  show "cache_shape h (sl\<lparr>finger := F, distance := D\<rparr>) M"
    unfolding cache_shape_def
  proof (intro conjI allI impI)
    fix i assume i: "i < MAX_LEVEL"
    show "\<exists>c<length M. finger (sl\<lparr>finger := F, distance := D\<rparr>) ! i = M ! c \<and> i < lv h (M ! c)"
    proof (cases "i < level sl")
      case True
      then show ?thesis using lo ppl [of i] pplv [OF i] by auto
    next
      case False
      then show ?thesis using hi cs i unfolding cache_shape_def by simp
    qed
  qed (simp_all add: len)
  show "cache_ranked (sl\<lparr>finger := F, distance := D\<rparr>) M"
    if sp: "spans h M (level sl)" and cr: "cache_ranked sl M"
    unfolding cache_ranked_def
  proof (intro allI impI)
    fix i c assume i: "i < MAX_LEVEL"
      and c: "0 < c \<and> c < length M \<and> finger (sl\<lparr>finger := F, distance := D\<rparr>) ! i = M ! c"
    show "distance (sl\<lparr>finger := F, distance := D\<rparr>) ! i = int c"
    proof (cases "i < level sl")
      case True
      then have "M ! pp i = M ! c" using lo c by simp
      then have "pp i = c" using dist ppl [of i] c by (simp add: nth_eq_iff_index_eq)
      then show ?thesis using rk sp cr True by simp
    next
      case False
      then show ?thesis using hi cr i c unfolding cache_ranked_def by simp
    qed
  qed
qed

lemma SkipList_Delete_shape:
  assumes ok: "comparator_ok (Member_Compare sl)" and sh: "shape w sl N"
    and p: "p = ins_pos (Member_Compare sl) (heap w) k (header sl # N)"
  shows "\<exists>w' sl' d. SkipList_Delete w sl k = Some (Inr (w', sl', d)) \<and>
     Member_Compare sl' = Member_Compare sl \<and> header sl' = header sl \<and>
     (if p \<le> length N \<and> Member_Compare sl (keyof (heap w) (N ! (p - 1))) k = 0
      then d = 1 \<and> shape w' sl' (del_at (p - 1) N) \<and>
           (ranked w sl N \<longrightarrow> ranked w' sl' (del_at (p - 1) N)) \<and>
           (\<forall>a \<in> set (del_at (p - 1) N). keyof (heap w') a = keyof (heap w) a \<and>
                                             dataof (heap w') a = dataof (heap w) a) \<and>
           brk w' = brk w \<and> Current_Random_Level w' = Current_Random_Level w
      else d = 0 \<and> w' = w \<and> shape w sl' N \<and> (ranked w sl N \<longrightarrow> ranked w sl' N) \<and>
           level sl' = level sl \<and> length_sl sl' = length_sl sl)"
proof -
  define cmp where "cmp = Member_Compare sl"
  define h where "h = heap w"
  define M where "M = header sl # N"
  define pp where "pp = (\<lambda>i. pred_pos (map (lv h) M) i p)"
  have hs: "heap_shape cmp h M" and cs: "cache_shape h sl M"
    and Lb: "1 \<le> level sl" "level sl \<le> MAX_LEVEL"
    and lowN: "\<forall>a \<in> set N. lv h a \<le> level sl"
    and free: "\<forall>a. brk w \<le> a \<longrightarrow> h a = None"
    using sh unfolding shape_def cmp_def h_def M_def by simp_all
  have okc: "comparator_ok cmp" using ok by (simp add: cmp_def)
  have pc: "p = ins_pos cmp h k M" using p by (simp add: cmp_def h_def M_def)
  have hd: "header sl = M ! 0" by (simp add: M_def)
  have lenM: "length M = Suc (length N)" by (simp add: M_def)
  have low: "\<And>j. 0 < j \<Longrightarrow> j < length M \<Longrightarrow> lv h (M ! j) \<le> level sl"
  proof -
    fix j assume "0 < j" "j < length M"
    then obtain j' where "j = Suc j'" "j' < length N" unfolding M_def by (cases j) auto
    then show "lv h (M ! j) \<le> level sl" using lowN by (simp add: M_def)
  qed
  have Mne: "M \<noteq> []" and top: "lv h (M ! 0) = MAX_LEVEL" and dist: "distinct M"
    and nok: "\<forall>a \<in> set M. node_ok h a" and k0: "keyof h (M ! 0) = None"
    and lv1: "\<forall>j. 0 < j \<and> j < length M \<longrightarrow> 1 \<le> lv h (M ! j)"
    and srt: "keys_sorted cmp h M"
    using hs by (simp_all add: heap_shape_def)
  have pb: "0 < p" "p \<le> length M" using ins_pos_bounds [OF Mne, of cmp h k] pc by simp_all
  have Mp: "M ! p = N ! (p - 1)" using pb by (cases p) (simp_all add: M_def)
  have cond: "(p \<le> length N \<and> Member_Compare sl (keyof (heap w) (N ! (p - 1))) k = 0) =
      (p < length M \<and> cmp (keyof h (M ! p)) k = 0)"
    using lenM Mp by (auto simp: cmp_def h_def)
  from SkipList_Delete_run [OF okc hs cmp_def [symmetric] cs hd h_def [symmetric] Lb pc pp_def]
  obtain F D where
    len: "length F = MAX_LEVEL" "length D = MAX_LEVEL"
    and lo: "\<forall>i < level sl. F ! i = M ! pp i"
    and hi: "\<forall>i. level sl \<le> i \<longrightarrow> F ! i = finger sl ! i \<and> D ! i = distance sl ! i"
    and rk: "spans h M (level sl) \<and> cache_ranked sl M \<longrightarrow> (\<forall>i < level sl. D ! i = int (pp i))"
    and res: "if p < length M \<and> cmp (keyof h (M ! p)) k = 0
      then \<exists>h' l.
        SkipList_Delete w sl k =
          Some (Inr (w\<lparr>heap := h'\<rparr>,
                     sl\<lparr>finger := F, distance := D, level := l,
                        length_sl := length_sl sl - 1\<rparr>, 1)) \<and>
        1 \<le> l \<and> l \<le> level sl \<and>
        (\<forall>i. l \<le> i \<and> i < level sl \<longrightarrow> fwd h' (M ! 0) i = None) \<and>
        h' (M ! p) = None \<and>
        (\<forall>b. b \<noteq> M ! p \<longrightarrow> (h' b = None \<longleftrightarrow> h b = None) \<and> lv h' b = lv h b \<and>
           node_ok h' b = node_ok h b \<and> keyof h' b = keyof h b \<and> dataof h' b = dataof h b) \<and>
        (\<forall>b i. b \<noteq> M ! p \<longrightarrow>
           fwd h' b i =
             (if i < level sl \<and> b = M ! pp i \<and> fwd h (M ! pp i) i = Some (M ! p)
              then fwd h (M ! p) i else fwd h b i)) \<and>
        (\<forall>b i. b \<noteq> M ! p \<longrightarrow>
           dif h' b i =
             (if i < level sl \<and> b = M ! pp i
              then (if fwd h (M ! pp i) i \<noteq> Some (M ! p) then dif h b i - 1
                    else dif h b i + (dif h (M ! p) i - 1))
              else dif h b i))
      else SkipList_Delete w sl k = Some (Inr (w, sl\<lparr>finger := F, distance := D\<rparr>, 0))"
    by blast
  let ?sl1 = "sl\<lparr>finger := F, distance := D\<rparr>"
  have cs1: "cache_shape h ?sl1 M"
    using hs cs pb Lb(2) len lo hi rk pp_def by (rule cache_after_search(1))
  have cr1: "spans h M (level sl) \<Longrightarrow> cache_ranked sl M \<Longrightarrow> cache_ranked ?sl1 M"
    using hs cs pb Lb(2) len lo hi rk pp_def by (rule cache_after_search(2))
  show ?thesis
  proof (cases "p < length M \<and> cmp (keyof h (M ! p)) k = 0")
    case False
    then have run: "SkipList_Delete w sl k = Some (Inr (w, ?sl1, 0))" using res by simp
    have s1: "shape w ?sl1 N"
      using sh cs1 unfolding shape_def by (simp add: h_def M_def)
    have r1: "ranked w sl N \<longrightarrow> ranked w ?sl1 N"
      using cr1 unfolding ranked_def by (simp add: h_def M_def)
    show ?thesis
      apply (rule exI [of _ w], rule exI [of _ ?sl1], rule exI [of _ 0])
      unfolding cond
      using False run s1 r1 by simp
  next
    case True
    then have pM: "p < length M" by simp
    from res True obtain h' l where
      run: "SkipList_Delete w sl k =
          Some (Inr (w\<lparr>heap := h'\<rparr>,
                     sl\<lparr>finger := F, distance := D, level := l,
                        length_sl := length_sl sl - 1\<rparr>, 1))"
      and lb: "1 \<le> l" "l \<le> level sl"
      and emp: "\<forall>i. l \<le> i \<and> i < level sl \<longrightarrow> fwd h' (M ! 0) i = None"
      and gone: "h' (M ! p) = None"
      and oth: "\<forall>b. b \<noteq> M ! p \<longrightarrow> (h' b = None \<longleftrightarrow> h b = None) \<and> lv h' b = lv h b \<and>
           node_ok h' b = node_ok h b \<and> keyof h' b = keyof h b \<and> dataof h' b = dataof h b"
      and fw: "\<forall>b i. b \<noteq> M ! p \<longrightarrow>
           fwd h' b i =
             (if i < level sl \<and> b = M ! pp i \<and> fwd h (M ! pp i) i = Some (M ! p)
              then fwd h (M ! p) i else fwd h b i)"
      and df: "\<forall>b i. b \<noteq> M ! p \<longrightarrow>
           dif h' b i =
             (if i < level sl \<and> b = M ! pp i
              then (if fwd h (M ! pp i) i \<noteq> Some (M ! p) then dif h b i - 1
                    else dif h b i + (dif h (M ! p) i - 1))
              else dif h b i)"
      by auto
    define w' where "w' = w\<lparr>heap := h'\<rparr>"
    define sl' where "sl' = sl\<lparr>finger := F, distance := D, level := l,
                        length_sl := length_sl sl - 1\<rparr>"
    define M' where "M' = del_at p M"
    have M'eq: "header sl' # del_at (p - 1) N = M'"
      unfolding M'_def M_def sl'_def using pb(1) by (simp add: del_at_Cons)
    have lenM': "length M' = length M - 1" using pM by (simp add: M'_def)
    have notin: "M ! p \<notin> set M'" unfolding M'_def using dist pM by (rule nth_del_at_notin)
    have sub: "set M' \<subseteq> set M" unfolding M'_def by (rule set_del_at_subset)
    have lvs: "\<And>b. b \<noteq> M ! p \<Longrightarrow> lv h' b = lv h b" using oth by simp
    have M'0: "M' ! 0 = M ! 0" using pb pM by (simp add: M'_def nth_del_at)
    have "0 < length M" using Mne by simp
    then have M0n: "M ! 0 \<noteq> M ! p" using dist pM pb by (simp add: nth_eq_iff_index_eq)
    have ppl: "\<And>i. pp i < p" unfolding pp_def using pb(1) by (rule pred_pos_less)
    have ppM': "\<And>i. M' ! pp i = M ! pp i" using ppl pM by (simp add: M'_def nth_del_at)
    have ppn: "\<And>i. M ! pp i \<noteq> M ! p"
    proof -
      fix i
      have "pp i < length M" "pp i \<noteq> p" using ppl [of i] pM by simp_all
      then show "M ! pp i \<noteq> M ! p" using dist pM by (simp add: nth_eq_iff_index_eq)
    qed
    have pplv: "\<And>i. i < MAX_LEVEL \<Longrightarrow> i < lv h (M ! pp i)"
      using pred_pos_shape(2) [OF hs pb(1) _ pb(2)] unfolding pp_def by simp
    have M'nth: "\<And>j. j < length M' \<Longrightarrow> M' ! j = M ! (if j < p then j else Suc j)"
      using pM by (simp add: M'_def nth_del_at)
    have lk': "links h' M'"
      unfolding M'_def
      using hs pb(1) pM low Lb(2) lvs _ pp_def
    proof (rule links_delete)
      show "\<And>b i. b \<noteq> M ! p \<Longrightarrow>
        fwd h' b i =
          (if i < level sl \<and> b = M ! pp i \<and> fwd h (M ! pp i) i = Some (M ! p)
           then fwd h (M ! p) i else fwd h b i)"
        using fw by blast
    qed
    have hs': "heap_shape cmp h' M'"
      unfolding heap_shape_def
    proof (intro conjI)
      show "M' \<noteq> []" using lenM' pM pb by (cases M') auto
      show "distinct M'" unfolding M'_def using dist by (rule distinct_del_at)
      show "\<forall>a \<in> set M'. node_ok h' a"
      proof
        fix a assume a: "a \<in> set M'"
        then have "a \<noteq> M ! p" using notin by auto
        moreover have "node_ok h a" using a sub nok by auto
        ultimately show "node_ok h' a" using oth by simp
      qed
      show "lv h' (M' ! 0) = MAX_LEVEL" using M'0 lvs [OF M0n] top by simp
      show "keyof h' (M' ! 0) = None" using M'0 M0n oth k0 by simp
      show "\<forall>j. 0 < j \<and> j < length M' \<longrightarrow> 1 \<le> lv h' (M' ! j)"
      proof (intro allI impI)
        fix j assume j: "0 < j \<and> j < length M'"
        let ?j = "if j < p then j else Suc j"
        have b: "0 < ?j" "?j < length M" using j lenM' by auto
        have "M' ! j \<noteq> M ! p" using notin j nth_mem by fastforce
        then have "lv h' (M' ! j) = lv h (M ! ?j)" using lvs M'nth j by simp
        then show "1 \<le> lv h' (M' ! j)" using lv1 b by simp
      qed
      show "links h' M'" by (rule lk')
      show "keys_sorted cmp h' M'"
        unfolding M'_def
        using srt dist pb(1) pM
      proof (rule keys_sorted_delete)
        show "\<And>b. b \<noteq> M ! p \<Longrightarrow> keyof h' b = keyof h b" using oth by simp
      qed
    qed
    have dist': "distinct M'" using hs' by (simp add: heap_shape_def)
    have fing: "\<And>i. i < MAX_LEVEL \<Longrightarrow> \<not> i < level sl \<Longrightarrow> F ! i = M' ! 0"
    proof -
      fix i assume i: "i < MAX_LEVEL" and nl: "\<not> i < level sl"
      from cs i obtain c where c: "c < length M" "finger sl ! i = M ! c" "i < lv h (M ! c)"
        unfolding cache_shape_def by blast
      have "c = 0"
      proof (rule ccontr)
        assume "c \<noteq> 0"
        then have "lv h (M ! c) \<le> level sl" using low c(1) by simp
        then show False using c(3) nl by simp
      qed
      then show "F ! i = M' ! 0" using hi nl c M'0 by simp
    qed
    have cs': "cache_shape h' sl' M'"
      unfolding cache_shape_def
    proof (intro conjI allI impI)
      show "length (finger sl') = MAX_LEVEL" "length (distance sl') = MAX_LEVEL"
        using len by (simp_all add: sl'_def)
      fix i assume i: "i < MAX_LEVEL"
      show "\<exists>c<length M'. finger sl' ! i = M' ! c \<and> i < lv h' (M' ! c)"
      proof (cases "i < level sl")
        case True
        have "finger sl' ! i = M' ! pp i" using lo True ppM' by (simp add: sl'_def)
        moreover have "i < lv h' (M' ! pp i)" using pplv [OF i] ppM' lvs [OF ppn] by simp
        moreover have "pp i < length M'" using ppl [of i] pM lenM' by simp
        ultimately show ?thesis by blast
      next
        case False
        have "finger sl' ! i = M' ! 0" using fing [OF i False] by (simp add: sl'_def)
        moreover have "i < lv h' (M' ! 0)" using M'0 lvs [OF M0n] top i by simp
        moreover have "0 < length M'" using lenM' pM pb by simp
        ultimately show ?thesis by blast
      qed
    qed
    have small: "\<forall>a \<in> set (del_at (p - 1) N). lv h' a \<le> l"
    proof
      fix a assume "a \<in> set (del_at (p - 1) N)"
      then obtain j' where j': "j' < length (del_at (p - 1) N)" "del_at (p - 1) N ! j' = a"
        by (auto simp: in_set_conv_nth)
      let ?j = "Suc j'"
      have jM': "?j < length M'" using j' M'eq [symmetric] by simp
      have aj: "M' ! ?j = a" using j' M'eq [symmetric] by simp
      have an: "a \<noteq> M ! p" using notin jM' aj nth_mem by fastforce
      have aM: "lv h' a \<le> level sl"
      proof -
        let ?i = "if ?j < p then ?j else Suc ?j"
        have "0 < ?i" "?i < length M" using jM' lenM' by auto
        then have "lv h (M ! ?i) \<le> level sl" by (rule low)
        moreover have "a = M ! ?i" using M'nth [OF jM'] aj by simp
        ultimately show ?thesis using lvs [OF an] by simp
      qed
      show "lv h' a \<le> l"
      proof (rule ccontr)
        assume "\<not> lv h' a \<le> l"
        then have la: "l < lv h' a" by simp
        then have ll: "l < level sl" using aM by simp
        then have e: "fwd h' (M' ! 0) l = None" using emp M'0 by simp
        have "l < lv h' (M' ! 0)" using M'0 lvs [OF M0n] top ll Lb by simp
        moreover have "0 < length M'" using jM' by linarith
        ultimately have "fwd h' (M' ! 0) l =
            (if nxt (map (lv h') M') l 0 < length M'
             then Some (M' ! nxt (map (lv h') M') l 0) else None)"
          using lk' unfolding links_def by blast
        then have "\<not> nxt (map (lv h') M') l 0 < length M'" using e by (auto split: if_splits)
        then have "?j < nxt (map (lv h') M') l 0" using jM' by simp
        then have "map (lv h') M' ! ?j \<le> l" by (intro nxt_between) simp_all
        then show False using la aj jM' by simp
      qed
    qed
    have shape': "shape w' sl' (del_at (p - 1) N)"
      unfolding shape_def M'eq
    proof (intro conjI)
      show "heap_shape (Member_Compare sl') (heap w') M'"
        using hs' by (simp add: sl'_def w'_def cmp_def)
      show "cache_shape (heap w') sl' M'" using cs' by (simp add: w'_def)
      show "1 \<le> level sl'" "level sl' \<le> MAX_LEVEL" using lb Lb by (simp_all add: sl'_def)
      show "\<forall>a \<in> set (del_at (p - 1) N). lv (heap w') a \<le> level sl'"
        using small by (simp add: w'_def sl'_def)
      show "\<forall>a. brk w' \<le> a \<longrightarrow> heap w' a = None"
      proof (intro allI impI)
        fix a assume "brk w' \<le> a"
        then have "h a = None" using free by (simp add: w'_def)
        then show "heap w' a = None" using oth gone by (cases "a = M ! p") (simp_all add: w'_def)
      qed
    qed
    have ranked': "ranked w' sl' (del_at (p - 1) N)" if rkd: "ranked w sl N"
    proof -
      have sp: "spans h M (level sl)" and cr: "cache_ranked sl M"
        and ln: "length_sl sl = int (length N)"
        using rkd unfolding ranked_def h_def M_def by simp_all
      have Dlo: "\<And>i. i < level sl \<Longrightarrow> D ! i = int (pp i)" using rk sp cr by simp
      have "spans h' M' (level sl)"
        unfolding M'_def
        using hs pb(1) pM low Lb(2) lvs sp _ pp_def
      proof (rule spans_delete)
        show "\<And>b i. b \<noteq> M ! p \<Longrightarrow>
          dif h' b i =
            (if i < level sl \<and> b = M ! pp i
             then (if fwd h (M ! pp i) i \<noteq> Some (M ! p) then dif h b i - 1
                   else dif h b i + (dif h (M ! p) i - 1))
             else dif h b i)"
          using df by blast
      qed
      then have sp': "spans h' M' l" using lb(2) by (rule spans_mono)
      have cr': "cache_ranked sl' M'"
        unfolding cache_ranked_def
      proof (intro allI impI)
        fix i c assume i: "i < MAX_LEVEL"
          and c: "0 < c \<and> c < length M' \<and> finger sl' ! i = M' ! c"
        show "distance sl' ! i = int c"
        proof (cases "i < level sl")
          case True
          have "M' ! pp i = M' ! c" using lo True ppM' c by (simp add: sl'_def)
          moreover have "pp i < length M'" using ppl [of i] pM lenM' by simp
          ultimately have "pp i = c" using dist' c by (simp add: nth_eq_iff_index_eq)
          then show ?thesis using Dlo [OF True] by (simp add: sl'_def)
        next
          case False
          have "M' ! 0 = M' ! c" using fing [OF i False] c by (simp add: sl'_def)
          moreover have "0 < length M'" "c < length M'" using c by auto
          ultimately have "0 = c" using dist' nth_eq_iff_index_eq by blast
          then show ?thesis using c by simp
        qed
      qed
      have "p - 1 < length N" using pM pb lenM by linarith
      then have "length (del_at (p - 1) N) = length N - 1" by simp
      moreover have "0 < length N" using pM pb lenM by linarith
      ultimately have "int (length (del_at (p - 1) N)) = int (length N) - 1" by linarith
      then have "length_sl sl' = int (length (del_at (p - 1) N))"
        using ln by (simp add: sl'_def)
      then show ?thesis
        unfolding ranked_def M'eq
        using sp' cr' by (simp add: w'_def sl'_def)
    qed
    have keep: "\<forall>a \<in> set (del_at (p - 1) N). keyof (heap w') a = keyof (heap w) a \<and>
                    dataof (heap w') a = dataof (heap w) a"
    proof
      fix a assume "a \<in> set (del_at (p - 1) N)"
      then have "a \<in> set M'" using M'eq [symmetric] by simp
      then have "a \<noteq> M ! p" using notin by auto
      then show "keyof (heap w') a = keyof (heap w) a \<and> dataof (heap w') a = dataof (heap w) a"
        using oth by (simp add: w'_def h_def)
    qed
    show ?thesis
      apply (rule exI [of _ w'], rule exI [of _ sl'], rule exI [of _ 1])
      unfolding cond
      apply (subst if_P [OF True])
      apply (intro conjI)
      using run apply (simp add: w'_def sl'_def)
      apply (simp add: sl'_def)
      apply (simp add: sl'_def)
      apply simp
      apply (rule shape')
      using ranked' apply blast
      apply (rule keep)
      apply (simp add: w'_def)
      apply (simp add: w'_def)
      done
  qed
qed

subsection \<open>Creation, iteration and search\<close>

lemma nxt_level0:
  assumes "\<And>m. 0 < m \<Longrightarrow> m < length hs \<Longrightarrow> 0 < hs ! m" and "j < length hs"
  shows "nxt hs 0 j = Suc j"
  using assms by (intro nxt_unique) auto

lemma SkipList_Create_shape:
  assumes "world_ok w"
  shows "shape (fst (SkipList_Create w c)) (snd (SkipList_Create w c)) []"
    and "ranked (fst (SkipList_Create w c)) (snd (SkipList_Create w c)) []"
    and "Member_Compare (snd (SkipList_Create w c)) = c"
proof -
  let ?x = "\<lparr>key = None, data = None, height = MAX_LEVEL,
               forward = replicate MAX_LEVEL None, diff = replicate MAX_LEVEL 1\<rparr>
            :: ('a, 'b) SkipList_element_struct"
  let ?hd = "brk w"
  let ?h = "(heap w)(?hd \<mapsto> ?x)"
  let ?w = "w\<lparr>heap := ?h, brk := Suc ?hd\<rparr>"
  let ?sl = "\<lparr>Member_Compare = c, header = ?hd, finger = replicate MAX_LEVEL ?hd,
           distance = replicate MAX_LEVEL 1, level = 1, length_sl = 0\<rparr>"
  have cr: "SkipList_Create w c = (?w, ?sl)"
    by (simp add: SkipList_Create_def MakeNode_def)
  have n1: "\<And>i. nxt [MAX_LEVEL] i 0 = 1" by (simp add: nxt_def)
  have M0: "0 < MAX_LEVEL" by (simp add: MAX_LEVEL_def)
  have lvh: "lv ?h ?hd = MAX_LEVEL" by (simp add: lv_def)
  have hs: "heap_shape c ?h [?hd]"
    unfolding heap_shape_def
    by (simp add: node_ok_def lv_def keyof_def links_def keys_sorted_def fwd_def n1)
  have cs: "cache_shape ?h ?sl [?hd]"
    unfolding cache_shape_def by (simp add: lv_def)
  show "shape (fst (SkipList_Create w c)) (snd (SkipList_Create w c)) []"
    unfolding cr shape_def using hs cs assms M0 by (simp add: world_ok_def)
  have "spans ?h [?hd] 1" unfolding spans_def by (simp add: dif_def lv_def n1 M0)
  moreover have "cache_ranked ?sl [?hd]" unfolding cache_ranked_def by auto
  ultimately show "ranked (fst (SkipList_Create w c)) (snd (SkipList_Create w c)) []"
    unfolding cr ranked_def by simp
  show "Member_Compare (snd (SkipList_Create w c)) = c" unfolding cr by simp
qed

lemma heap_shape_next0:
  assumes hs: "heap_shape cmp h M" and j: "j < length M"
  shows "fwd h (M ! j) 0 = (if Suc j < length M then Some (M ! Suc j) else None)"
    and "0 < lv h (M ! j)"
proof -
  have top: "lv h (M ! 0) = MAX_LEVEL"
    and lv1: "\<forall>j. 0 < j \<and> j < length M \<longrightarrow> 1 \<le> lv h (M ! j)"
    using hs by (simp_all add: heap_shape_def)
  have pos: "\<And>m. m < length M \<Longrightarrow> 0 < lv h (M ! m)"
  proof -
    fix m assume "m < length M"
    then show "0 < lv h (M ! m)" using top lv1 by (cases "m = 0") (auto simp: MAX_LEVEL_def)
  qed
  show l: "0 < lv h (M ! j)" using pos j by simp
  have "nxt (map (lv h) M) 0 j = Suc j" using pos j by (intro nxt_level0) simp_all
  then show "fwd h (M ! j) 0 = (if Suc j < length M then Some (M ! Suc j) else None)"
    using heap_shape_fwd [OF hs j l] by simp
qed

lemma SkipList_Iterate_while_shape:
  assumes hs: "heap_shape cmp h M"
  shows "j < length M \<Longrightarrow>
     SkipList_Iterate_while h (M ! j) acc =
       Some (Inr (acc @ map (\<lambda>a. (keyof h a, dataof h a)) (drop (Suc j) M)))"
proof (induction "length M - j" arbitrary: j acc rule: less_induct)
  case less
  have okj: "node_ok h (M ! j)" using hs less.prems by (rule heap_shape_node_ok)
  have f: "forward_at h (M ! j) 0 = Inr (if Suc j < length M then Some (M ! Suc j) else None)"
    using heap_shape_next0 [OF hs less.prems] okj by (simp add: forward_at_ok)
  show ?case
  proof (cases "Suc j < length M")
    case False
    then show ?thesis using f by (subst SkipList_Iterate_while.simps) simp
  next
    case True
    have okn: "node_ok h (M ! Suc j)" using hs True by (rule heap_shape_node_ok)
    have "length M - Suc j < length M - j" using True by simp
    from less.hyps [OF this True]
    have IH: "SkipList_Iterate_while h (M ! Suc j)
        (acc @ [(key (the (h (M ! Suc j))), data (the (h (M ! Suc j))))]) =
       Some (Inr ((acc @ [(key (the (h (M ! Suc j))), data (the (h (M ! Suc j))))]) @
          map (\<lambda>a. (keyof h a, dataof h a)) (drop (Suc (Suc j)) M)))" .
    have d: "drop (Suc j) M = M ! Suc j # drop (Suc (Suc j)) M"
      using True by (simp add: Cons_nth_drop_Suc)
    show ?thesis
      using f True okn IH
      by (subst SkipList_Iterate_while.simps) (simp add: node_at_ok d keyof_def dataof_def)
  qed
qed

lemma SkipList_Iterate_shape:
  assumes "shape w sl N"
  shows "SkipList_Iterate w sl =
     Some (Inr (map (\<lambda>a. (keyof (heap w) a, dataof (heap w) a)) N))"
proof -
  have hs: "heap_shape (Member_Compare sl) (heap w) (header sl # N)"
    using assms by (simp add: shape_def)
  have "SkipList_Iterate_while (heap w) ((header sl # N) ! 0) [] =
      Some (Inr ([] @ map (\<lambda>a. (keyof (heap w) a, dataof (heap w) a))
                         (drop (Suc 0) (header sl # N))))"
    using hs by (rule SkipList_Iterate_while_shape) simp
  then show ?thesis by (simp add: SkipList_Iterate_def)
qed

lemma SkipList_Search_shape:
  assumes ok: "comparator_ok (Member_Compare sl)" and sh: "shape w sl N"
    and p: "p = ins_pos (Member_Compare sl) (heap w) k (header sl # N)"
  shows "\<exists>sl'. SkipList_Search w sl k =
       Some (Inr (sl', if p \<le> length N \<and> Member_Compare sl k (keyof (heap w) (N ! (p - 1))) = 0
                       then dataof (heap w) (N ! (p - 1)) else None)) \<and>
     shape w sl' N \<and> (ranked w sl N \<longrightarrow> ranked w sl' N) \<and>
     Member_Compare sl' = Member_Compare sl \<and> header sl' = header sl"
proof -
  define cmp where "cmp = Member_Compare sl"
  define h where "h = heap w"
  define M where "M = header sl # N"
  define pp where "pp = (\<lambda>i. pred_pos (map (lv h) M) i p)"
  have hs: "heap_shape cmp h M" and cs: "cache_shape h sl M"
    and Lb: "1 \<le> level sl" "level sl \<le> MAX_LEVEL"
    using sh unfolding shape_def cmp_def h_def M_def by simp_all
  have okc: "comparator_ok cmp" using ok by (simp add: cmp_def)
  have pc: "p = ins_pos cmp h k M" using p by (simp add: cmp_def h_def M_def)
  have hd: "header sl = M ! 0" by (simp add: M_def)
  have lenM: "length M = Suc (length N)" by (simp add: M_def)
  have Mne: "M \<noteq> []" by (simp add: M_def)
  have pb: "0 < p" "p \<le> length M" using ins_pos_bounds [OF Mne, of cmp h k] pc by simp_all
  have Mp: "M ! p = N ! (p - 1)" using pb by (cases p) (simp_all add: M_def)
  have M0: "0 < MAX_LEVEL" by (simp add: MAX_LEVEL_def)
  from Search_by_Key_shape [OF okc hs pc cmp_def [symmetric] cs Lb(2) hd]
  obtain F D u d where
    sk: "Search_by_Key h sl k = Some (Inr (sl\<lparr>finger := F, distance := D\<rparr>, u, d))"
    and len: "length F = MAX_LEVEL" "length D = MAX_LEVEL" "length u = MAX_LEVEL"
    and lo: "\<forall>i < level sl. F ! i = M ! pp i \<and> u ! i = Some (M ! pp i) \<and> d ! i = Some (D ! i)"
    and hi: "\<forall>i. level sl \<le> i \<longrightarrow> F ! i = finger sl ! i \<and> D ! i = distance sl ! i"
    and rk: "spans h M (level sl) \<and> cache_ranked sl M \<longrightarrow> (\<forall>i < level sl. D ! i = int (pp i))"
    unfolding pp_def by blast
  let ?sl1 = "sl\<lparr>finger := F, distance := D\<rparr>"
  have lo': "\<forall>i < level sl. F ! i = M ! pp i" using lo by simp
  have cs1: "cache_shape h ?sl1 M"
    using hs cs pb Lb(2) len(1,2) lo' hi rk pp_def by (rule cache_after_search(1))
  have cr1: "spans h M (level sl) \<Longrightarrow> cache_ranked sl M \<Longrightarrow> cache_ranked ?sl1 M"
    using hs cs pb Lb(2) len(1,2) lo' hi rk pp_def by (rule cache_after_search(2))
  have s1: "shape w ?sl1 N" using sh cs1 unfolding shape_def by (simp add: h_def M_def)
  have r1: "ranked w sl N \<longrightarrow> ranked w ?sl1 N"
    using cr1 unfolding ranked_def by (simp add: h_def M_def)
  have lv1: "\<forall>j. 0 < j \<and> j < length M \<longrightarrow> 1 \<le> lv h (M ! j)"
    and top: "lv h (M ! 0) = MAX_LEVEL"
    using hs by (simp_all add: heap_shape_def)
  have pp0: "pp 0 = p - 1"
    unfolding pp_def
  proof (rule pred_pos_last)
    show "0 < p" by (rule pb)
    show "0 < map (lv h) M ! (p - 1)"
    proof (cases "p - 1 = 0")
      case True
      then show ?thesis using Mne top by (simp add: MAX_LEVEL_def)
    next
      case False
      then have "1 \<le> lv h (M ! (p - 1))" using lv1 pb by simp
      then show ?thesis using pb by simp
    qed
  qed
  have p1: "p - 1 < length M" using pb by simp
  have u0: "ini u 0 = Inr (M ! (p - 1))" using lo Lb len pp0 by (simp add: ini_ok MAX_LEVEL_def)
  have f0: "forward_at h (M ! (p - 1)) 0 = Inr (if p < length M then Some (M ! p) else None)"
    using heap_shape_next0 [OF hs p1] heap_shape_node_ok [OF hs p1] pb
    by (simp add: forward_at_ok)
  have c1: "Member_Compare ?sl1 = cmp" by (simp add: cmp_def)
  have run: "SkipList_Search w sl k =
      Some (Inr (?sl1, if p < length M \<and> cmp k (keyof h (M ! p)) = 0
                       then dataof h (M ! p) else None))"
  proof (cases "p < length M")
    case True
    have okn: "node_at h (M ! p) = Inr (the (h (M ! p)))"
      using heap_shape_node_ok [OF hs True] by (simp add: node_at_ok)
    have f0': "forward_at h (M ! (p - 1)) 0 = Inr (Some (M ! p))" using f0 True by simp
    show ?thesis
      unfolding SkipList_Search_def h_def [symmetric]
      by (simp only: sk bnd_simps prod.case u0 f0' option.case okn c1)
         (simp add: ret_def True keyof_def dataof_def)
  next
    case False
    have f0': "forward_at h (M ! (p - 1)) 0 = Inr None" using f0 False by simp
    show ?thesis
      unfolding SkipList_Search_def h_def [symmetric]
      by (simp only: sk bnd_simps prod.case u0 f0' option.case) (simp add: ret_def False)
  qed
  have cond: "(p \<le> length N \<and> Member_Compare sl k (keyof (heap w) (N ! (p - 1))) = 0) =
      (p < length M \<and> cmp k (keyof h (M ! p)) = 0)"
    using lenM Mp by (auto simp: cmp_def h_def)
  show ?thesis
    apply (rule exI [of _ ?sl1])
    unfolding cond
    using run s1 r1 Mp by (simp add: h_def)
qed

subsection \<open>Sequences of calls\<close>

lemma calls_shape:
  "comparator_ok (Member_Compare sl) \<Longrightarrow> shape w sl N \<Longrightarrow>
     \<exists>w' sl' N'. calls (w, sl) cs = Some (Inr (w', sl')) \<and> shape w' sl' N' \<and>
        (ranked w sl N \<longrightarrow> ranked w' sl' N') \<and>
        Member_Compare sl' = Member_Compare sl \<and> header sl' = header sl"
proof (induction cs arbitrary: w sl N)
  case Nil
  then show ?case by (auto simp: ret_def)
next
  case (Cons c cs)
  show ?case
  proof (cases c)
    case (Insert k m)
    from SkipList_Insert_shape [OF Cons.prems refl, of k m]
    obtain w1 sl1 N1 where 1: "SkipList_Insert w sl k m = Some (Inr (w1, sl1))"
      "shape w1 sl1 N1" "ranked w sl N \<longrightarrow> ranked w1 sl1 N1"
      "Member_Compare sl1 = Member_Compare sl" "header sl1 = header sl"
      by blast
    have "comparator_ok (Member_Compare sl1)" using 1(4) Cons.prems(1) by simp
    from Cons.IH [OF this 1(2)]
    obtain w' sl' N' where 2: "calls (w1, sl1) cs = Some (Inr (w', sl'))" "shape w' sl' N'"
      "ranked w1 sl1 N1 \<longrightarrow> ranked w' sl' N'"
      "Member_Compare sl' = Member_Compare sl1" "header sl' = header sl1"
      by blast
    have "calls (w, sl) (c # cs) = Some (Inr (w', sl'))" using Insert 1(1) 2(1) by simp
    then show ?thesis using 1 2 by auto
  next
    case (Delete k)
    from SkipList_Delete_shape [OF Cons.prems refl, of k]
    obtain w1 sl1 d N1 where 1: "SkipList_Delete w sl k = Some (Inr (w1, sl1, d))"
      "shape w1 sl1 N1" "ranked w sl N \<longrightarrow> ranked w1 sl1 N1"
      "Member_Compare sl1 = Member_Compare sl" "header sl1 = header sl"
      by (auto split: if_splits)
    have "comparator_ok (Member_Compare sl1)" using 1(4) Cons.prems(1) by simp
    from Cons.IH [OF this 1(2)]
    obtain w' sl' N' where 2: "calls (w1, sl1) cs = Some (Inr (w', sl'))" "shape w' sl' N'"
      "ranked w1 sl1 N1 \<longrightarrow> ranked w' sl' N'"
      "Member_Compare sl' = Member_Compare sl1" "header sl' = header sl1"
      by blast
    have "calls (w, sl) (c # cs) = Some (Inr (w', sl'))" using Delete 1(1) 2(1) by simp
    then show ?thesis using 1 2 by auto
  qed
qed

lemma calls_Create_shape:
  assumes "comparator_ok c" and "world_ok w0"
  shows "\<exists>w sl N. calls (SkipList_Create w0 c) cs = Some (Inr (w, sl)) \<and>
           shape w sl N \<and> ranked w sl N \<and> Member_Compare sl = c"
proof -
  obtain w1 sl1 where cr: "SkipList_Create w0 c = (w1, sl1)" by (cases "SkipList_Create w0 c")
  have s: "shape w1 sl1 []" "ranked w1 sl1 []" "Member_Compare sl1 = c"
    using SkipList_Create_shape [OF assms(2), of c] cr by simp_all
  have "comparator_ok (Member_Compare sl1)" using s(3) assms(1) by simp
  from calls_shape [OF this s(1), of cs] s(2,3) show ?thesis unfolding cr by auto
qed

lemma span_sum_shape:
  assumes hs: "heap_shape cmp h M" and sp: "spans h M L" and i: "i < L"
    and r: "r < length M" "i < lv h (M ! r)"
  shows "j \<le> r \<Longrightarrow> i < lv h (M ! j) \<Longrightarrow>
     span_sum h i (M ! j) (M ! r) acc = Some (acc + int r - int j)"
proof (induction "r - j" arbitrary: j acc rule: less_induct)
  case less
  let ?hs = "map (lv h) M"
  have dist: "distinct M" using hs by (simp add: heap_shape_def)
  show ?case
  proof (cases "j = r")
    case True
    then show ?thesis by (subst span_sum.simps) simp
  next
    case False
    then have jr: "j < r" using less.prems by simp
    then have jM: "j < length M" using r by simp
    have ne: "M ! j \<noteq> M ! r" using dist jM r False by (simp add: nth_eq_iff_index_eq)
    let ?n = "nxt ?hs i j"
    have nr: "?n \<le> r"
    proof (rule ccontr)
      assume "\<not> ?n \<le> r"
      then have "r < ?n" by simp
      with jr have "?hs ! r \<le> i" by (rule nxt_between)
      then show False using r by simp
    qed
    then have nM: "?n < length M" using r by simp
    have okj: "node_ok h (M ! j)" using hs jM by (rule heap_shape_node_ok)
    have f: "fwd h (M ! j) i = Some (M ! ?n)"
      using heap_shape_fwd [OF hs jM less.prems(2)] nM by simp
    have d: "dif h (M ! j) i = int ?n - int j"
      using sp jM less.prems(2) i unfolding spans_def by simp
    have hn: "i < lv h (M ! ?n)" using nxt_hit [of ?hs i j] nM by simp
    have "r - ?n < r - j" using nxt_gt [of j ?hs i] jr by simp
    from less.hyps [OF this nr hn, of "acc + (int ?n - int j)"]
    have IH: "span_sum h i (M ! ?n) (M ! r) (acc + (int ?n - int j)) =
        Some (acc + (int ?n - int j) + int r - int ?n)" .
    show ?thesis
      using ne okj less.prems(2) f d IH
      by (subst span_sum.simps) (simp add: forward_at_ok diff_at_ok)
  qed
qed

lemma first_with_ins_pos:
  assumes ok: "comparator_ok (Member_Compare sl)" and fw: "first_with w sl N n k"
  shows "ins_pos (Member_Compare sl) (heap w) k (header sl # N) \<le> length N"
    and "N ! (ins_pos (Member_Compare sl) (heap w) k (header sl # N) - 1) = n"
proof -
  let ?P = "\<lambda>a. 0 < Member_Compare sl k (keyof (heap w) a)"
  from fw obtain r where r: "r < length N" "N ! r = n" "keyof (heap w) n = k"
    "\<forall>j < r. ?P (N ! j)" unfolding first_with_def by blast
  have "Member_Compare sl k k = 0" using ok unfolding comparator_ok_def by blast
  then have np: "\<not> ?P (N ! r)" using r by simp
  have "takeWhile ?P N = take r N"
    using r np by (intro takeWhile_eq_take_P_nth) simp_all
  then have "length (takeWhile ?P N) = r" using r by simp
  then have e: "ins_pos (Member_Compare sl) (heap w) k (header sl # N) = Suc r"
    by (simp add: ins_pos_def)
  show "ins_pos (Member_Compare sl) (heap w) k (header sl # N) \<le> length N"
    unfolding e using r by simp
  show "N ! (ins_pos (Member_Compare sl) (heap w) k (header sl # N) - 1) = n"
    unfolding e using r by simp
qed

lemma comparator_zero_sym:
  assumes "comparator_ok cmp"
  shows "cmp a b = 0 \<longleftrightarrow> cmp b a = 0"
proof -
  have "(0 < cmp a b) = (cmp b a < 0)" "(0 < cmp b a) = (cmp a b < 0)"
    using assms unfolding comparator_ok_def by blast+
  then show ?thesis by linarith
qed

lemma shape_keys_sorted:
  "shape w sl N \<Longrightarrow> keys_sorted (Member_Compare sl) (heap w) (header sl # N)"
  by (simp add: shape_def heap_shape_def)

lemma first_with_Insert:
  assumes ok: "comparator_ok (Member_Compare sl)" and sh: "shape w sl N"
    and fw: "first_with w sl N n k" and ne: "Member_Compare sl k' k \<noteq> 0"
  shows "\<exists>w' sl' N'. SkipList_Insert w sl k' m' = Some (Inr (w', sl')) \<and> shape w' sl' N' \<and>
     Member_Compare sl' = Member_Compare sl \<and> first_with w' sl' N' n k \<and>
     dataof (heap w') n = dataof (heap w) n"
proof -
  define cmp where "cmp = Member_Compare sl"
  define p where "p = ins_pos (Member_Compare sl) (heap w) k' (header sl # N)"
  define M where "M = header sl # N"
  from SkipList_Insert_shape [OF ok sh p_def, of m']
  obtain w' sl' where run: "SkipList_Insert w sl k' m' = Some (Inr (w', sl'))"
    and sh': "shape w' sl' (ins_at (p - 1) (brk w) N)"
    and c': "Member_Compare sl' = Member_Compare sl"
    and nN: "brk w \<notin> set N"
    and kn: "keyof (heap w') (brk w) = k'"
    and keep: "\<forall>a \<in> set N. keyof (heap w') a = keyof (heap w) a \<and>
                    dataof (heap w') a = dataof (heap w) a"
    by blast
  from fw obtain r where r: "r < length N" "N ! r = n" "keyof (heap w) n = k"
    "\<forall>j < r. 0 < cmp k (keyof (heap w) (N ! j))" unfolding first_with_def cmp_def by blast
  have nin: "n \<in> set N" using r nth_mem by fastforce
  have pb: "0 < p" "p \<le> length M"
    using ins_pos_bounds [of M "Member_Compare sl" "heap w" k'] unfolding p_def M_def by simp_all
  let ?q = "p - 1"
  let ?N' = "ins_at ?q (brk w) N"
  have ql: "?q \<le> length N" using pb by (simp add: M_def)
  have key': "\<And>j. j < length ?N' \<Longrightarrow> keyof (heap w') (?N' ! j) =
      (if j < ?q then keyof (heap w) (N ! j) else if j = ?q then k'
       else keyof (heap w) (N ! (j - 1)))"
  proof -
    fix j assume j: "j < length ?N'"
    show "keyof (heap w') (?N' ! j) =
      (if j < ?q then keyof (heap w) (N ! j) else if j = ?q then k'
       else keyof (heap w) (N ! (j - 1)))"
    proof (cases "j = ?q")
      case True
      then show ?thesis using ql kn by (simp add: nth_ins_at)
    next
      case False
      let ?j = "if j < ?q then j else j - 1"
      have "?N' ! j = N ! ?j" using False ql by (simp add: nth_ins_at)
      moreover have "?j < length N" using j False ql by auto
      ultimately show ?thesis using False keep by auto
    qed
  qed
  show ?thesis
  proof (cases "?q \<le> r")
    case True
    have "p \<le> Suc r" using True by simp
    moreover have "Suc r < length M" using r by (simp add: M_def)
    ultimately have "\<not> 0 < cmp k' (keyof (heap w) (M ! Suc r))"
      using ins_pos_geq [OF ok shape_keys_sorted [OF sh], of k' "Suc r"]
      unfolding p_def M_def cmp_def by simp
    then have "cmp k' k \<le> 0" using r by (simp add: M_def)
    then have "cmp k' k < 0" using ne by (simp add: cmp_def)
    then have kk: "0 < cmp k k'" using ok unfolding comparator_ok_def cmp_def by blast
    have "first_with w' sl' ?N' n k"
      unfolding first_with_def
    proof (intro exI [of _ "Suc r"] conjI allI impI)
      show "Suc r < length ?N'" using r by simp
      show "?N' ! Suc r = n" using True r ql by (simp add: nth_ins_at)
      show "keyof (heap w') n = k" using keep nin r by simp
      fix j assume j: "j < Suc r"
      then have jl: "j < length ?N'" using r by simp
      show "0 < Member_Compare sl' k (keyof (heap w') (?N' ! j))"
        unfolding c' key' [OF jl] using r(4) j kk True by (auto simp: cmp_def)
    qed
    then show ?thesis using run sh' c' keep nin by blast
  next
    case False
    have "first_with w' sl' ?N' n k"
      unfolding first_with_def
    proof (intro exI [of _ r] conjI allI impI)
      show "r < length ?N'" using r by simp
      show "?N' ! r = n" using False r ql by (simp add: nth_ins_at)
      show "keyof (heap w') n = k" using keep nin r by simp
      fix j assume j: "j < r"
      then have jl: "j < length ?N'" using r by simp
      show "0 < Member_Compare sl' k (keyof (heap w') (?N' ! j))"
        unfolding c' key' [OF jl] using r(4) j False by (auto simp: cmp_def)
    qed
    then show ?thesis using run sh' c' keep nin by blast
  qed
qed

lemma first_with_Delete:
  assumes ok: "comparator_ok (Member_Compare sl)" and sh: "shape w sl N"
    and fw: "first_with w sl N n k" and ne: "Member_Compare sl k' k \<noteq> 0"
  shows "\<exists>w' sl' d N'. SkipList_Delete w sl k' = Some (Inr (w', sl', d)) \<and> shape w' sl' N' \<and>
     Member_Compare sl' = Member_Compare sl \<and> first_with w' sl' N' n k \<and>
     dataof (heap w') n = dataof (heap w) n"
proof -
  define cmp where "cmp = Member_Compare sl"
  define p where "p = ins_pos (Member_Compare sl) (heap w) k' (header sl # N)"
  from fw obtain r where r: "r < length N" "N ! r = n" "keyof (heap w) n = k"
    "\<forall>j < r. 0 < cmp k (keyof (heap w) (N ! j))" unfolding first_with_def cmp_def by blast
  have pb: "0 < p" unfolding p_def by (simp add: ins_pos_def)
  from SkipList_Delete_shape [OF ok sh p_def]
  obtain w' sl' d where run: "SkipList_Delete w sl k' = Some (Inr (w', sl', d))"
    and c': "Member_Compare sl' = Member_Compare sl"
    and res: "if p \<le> length N \<and> Member_Compare sl (keyof (heap w) (N ! (p - 1))) k' = 0
      then d = 1 \<and> shape w' sl' (del_at (p - 1) N) \<and>
           (\<forall>a \<in> set (del_at (p - 1) N). keyof (heap w') a = keyof (heap w) a \<and>
                                             dataof (heap w') a = dataof (heap w) a)
      else d = 0 \<and> w' = w \<and> shape w sl' N"
    by (auto split: if_splits)
  show ?thesis
  proof (cases "p \<le> length N \<and> Member_Compare sl (keyof (heap w) (N ! (p - 1))) k' = 0")
    case False
    then have "w' = w" "shape w sl' N" using res by simp_all
    moreover have "first_with w sl' N n k" using fw c' by (simp add: first_with_def)
    ultimately show ?thesis using run c' by blast
  next
    case True
    let ?q = "p - 1"
    let ?N' = "del_at ?q N"
    have "p \<le> length N" using True by simp
    then have ql: "?q < length N" using pb by linarith
    have sh': "shape w' sl' ?N'"
      and keep: "\<forall>a \<in> set ?N'. keyof (heap w') a = keyof (heap w) a \<and>
                                   dataof (heap w') a = dataof (heap w) a"
      using res True by simp_all
    have "cmp k k' \<noteq> 0" using ne comparator_zero_sym [OF ok, of k k'] by (simp add: cmp_def)
    then have qr: "?q \<noteq> r" using True r by (auto simp: cmp_def)
    let ?r = "if ?q < r then r - 1 else r"
    have rl: "?r < length ?N'" using r ql qr by auto
    have rn: "?N' ! ?r = n" using r ql qr by (auto simp: nth_del_at)
    then have nin: "n \<in> set ?N'" using rl nth_mem by fastforce
    have "first_with w' sl' ?N' n k"
      unfolding first_with_def
    proof (intro exI [of _ ?r] conjI allI impI)
      show "?r < length ?N'" by (rule rl)
      show "?N' ! ?r = n" by (rule rn)
      show "keyof (heap w') n = k" using keep nin r by simp
      fix j assume j: "j < ?r"
      then have jl: "j < length ?N'" using rl by simp
      then have "keyof (heap w') (?N' ! j) = keyof (heap w) (?N' ! j)" using keep by simp
      moreover have "?N' ! j = N ! (if j < ?q then j else Suc j)" using ql by (simp add: nth_del_at)
      moreover have "(if j < ?q then j else Suc j) < r" using j qr by (auto split: if_splits)
      ultimately show "0 < Member_Compare sl' k (keyof (heap w') (?N' ! j))"
        unfolding c' using r(4) by (simp add: cmp_def)
    qed
    then show ?thesis using run sh' c' keep nin by blast
  qed
qed

lemma calls_first_with:
  "comparator_ok (Member_Compare sl) \<Longrightarrow> shape w sl N \<Longrightarrow> first_with w sl N n k \<Longrightarrow>
     (\<forall>c \<in> set cs. Member_Compare sl (call_key c) k \<noteq> 0) \<Longrightarrow>
     \<exists>w' sl' N'. calls (w, sl) cs = Some (Inr (w', sl')) \<and> shape w' sl' N' \<and>
        Member_Compare sl' = Member_Compare sl \<and> first_with w' sl' N' n k \<and>
        dataof (heap w') n = dataof (heap w) n"
proof (induction cs arbitrary: w sl N)
  case Nil
  then show ?case by (auto simp: ret_def)
next
  case (Cons c cs)
  have ne: "Member_Compare sl (call_key c) k \<noteq> 0" using Cons.prems(4) by simp
  have "\<exists>w1 sl1 N1. calls (w, sl) [c] = Some (Inr (w1, sl1)) \<and> shape w1 sl1 N1 \<and>
     Member_Compare sl1 = Member_Compare sl \<and> first_with w1 sl1 N1 n k \<and>
     dataof (heap w1) n = dataof (heap w) n"
  proof (cases c)
    case (Insert k' m')
    from first_with_Insert [OF Cons.prems(1,2,3), of k' m'] ne Insert
    show ?thesis by (auto simp: call_key_def ret_def)
  next
    case (Delete k')
    from first_with_Delete [OF Cons.prems(1,2,3), of k'] ne Delete
    show ?thesis by (auto simp: call_key_def ret_def)
  qed
  then obtain w1 sl1 N1 where 1: "calls (w, sl) [c] = Some (Inr (w1, sl1))" "shape w1 sl1 N1"
    "Member_Compare sl1 = Member_Compare sl" "first_with w1 sl1 N1 n k"
    "dataof (heap w1) n = dataof (heap w) n" by blast
  have "comparator_ok (Member_Compare sl1)" using 1(3) Cons.prems(1) by simp
  moreover have "\<forall>c \<in> set cs. Member_Compare sl1 (call_key c) k \<noteq> 0"
    using Cons.prems(4) 1(3) by simp
  ultimately obtain w' sl' N' where 2: "calls (w1, sl1) cs = Some (Inr (w', sl'))"
    "shape w' sl' N'" "Member_Compare sl' = Member_Compare sl1" "first_with w' sl' N' n k"
    "dataof (heap w') n = dataof (heap w1) n"
    using Cons.IH [OF _ 1(2) 1(4)] by blast
  have "calls (w, sl) (c # cs) = Some (Inr (w', sl'))"
    using 1(1) 2(1) by (cases c) (auto simp: bnd_def ret_def split: option.splits sum.splits)
  then show ?case using 1 2 by auto
qed

subsection \<open>The example comparator and observations\<close>

lemma int_compare_ok: "comparator_ok int_compare"
  unfolding comparator_ok_def int_compare_def
  by (auto split: option.splits)

lemma world0_ok: "world_ok world0"
  by (simp add: world_ok_def world0_def)

lemma element_at_shape:
  assumes hs: "heap_shape cmp h M"
  shows "j < length M \<Longrightarrow>
     element_at h (M ! j) r = (if j + r < length M then Some (M ! (j + r)) else None)"
proof (induction r arbitrary: j)
  case 0
  then show ?case by simp
next
  case (Suc r)
  have f: "forward_at h (M ! j) 0 = Inr (if Suc j < length M then Some (M ! Suc j) else None)"
    using heap_shape_next0 [OF hs Suc.prems] heap_shape_node_ok [OF hs Suc.prems]
    by (simp add: forward_at_ok)
  show ?case
  proof (cases "Suc j < length M")
    case True
    then show ?thesis using f Suc.IH [OF True] by simp
  next
    case False
    then show ?thesis using f by simp
  qed
qed

subsection \<open>Insertion and search of one key\<close>

lemma bnd_assoc: "bnd (bnd m f) g = bnd m (\<lambda>x. bnd (f x) g)"
  by (simp add: bnd_def split: option.splits sum.splits)

lemma calls_append: "calls st (xs @ ys) = bnd (calls st xs) (\<lambda>st'. calls st' ys)"
proof (induction xs arbitrary: st)
  case Nil
  show ?case by (simp add: ret_def)
next
  case (Cons c xs)
  obtain w sl where st: "st = (w, sl)" by (cases st)
  show ?case
  proof (cases c)
    case (Insert k m)
    then show ?thesis unfolding st by (simp add: bnd_assoc Cons.IH)
  next
    case (Delete k)
    have e: "(\<lambda>(w', sl', d). calls (w', sl') (xs @ ys)) =
        (\<lambda>x. bnd (case x of (w', sl', d) \<Rightarrow> calls (w', sl') xs) (\<lambda>st'. calls st' ys))"
      by (auto simp: Cons.IH)
    show ?thesis unfolding st Delete by (simp add: bnd_assoc e)
  qed
qed

lemma SkipList_Insert_first_with:
  assumes ok: "comparator_ok (Member_Compare sl)" and sh: "shape w sl N"
    and r: "r = ins_pos (Member_Compare sl) (heap w) k (header sl # N) - 1"
  shows "\<exists>w' sl'. SkipList_Insert w sl k v = Some (Inr (w', sl')) \<and>
     shape w' sl' (ins_at r (brk w) N) \<and> Member_Compare sl' = Member_Compare sl \<and>
     r \<le> length N \<and> brk w \<notin> set N \<and>
     keyof (heap w') (brk w) = k \<and> dataof (heap w') (brk w) = v \<and>
     (\<forall>a \<in> set N. keyof (heap w') a = keyof (heap w) a \<and>
                    dataof (heap w') a = dataof (heap w) a) \<and>
     (\<forall>j < r. 0 < Member_Compare sl k (keyof (heap w) (N ! j))) \<and>
     first_with w' sl' (ins_at r (brk w) N) (brk w) k"
proof -
  define p where "p = ins_pos (Member_Compare sl) (heap w) k (header sl # N)"
  define M where "M = header sl # N"
  have rp: "r = p - 1" using r by (simp add: p_def)
  from SkipList_Insert_shape [OF ok sh p_def, where m = v]
  obtain w' sl' where run: "SkipList_Insert w sl k v = Some (Inr (w', sl'))"
    and sh': "shape w' sl' (ins_at r (brk w) N)"
    and c': "Member_Compare sl' = Member_Compare sl"
    and nN: "brk w \<notin> set N"
    and kn: "keyof (heap w') (brk w) = k" and dn: "dataof (heap w') (brk w) = v"
    and keep: "\<forall>a \<in> set N. keyof (heap w') a = keyof (heap w) a \<and>
                    dataof (heap w') a = dataof (heap w) a"
    unfolding rp by blast
  have pb: "0 < p" "p \<le> length M"
    using ins_pos_bounds [of M "Member_Compare sl" "heap w" k] unfolding p_def M_def by simp_all
  have rl: "r \<le> length N" using pb rp by (simp add: M_def)
  have before: "\<forall>j < r. 0 < Member_Compare sl k (keyof (heap w) (N ! j))"
  proof (intro allI impI)
    fix j assume j: "j < r"
    then have "Suc j < ins_pos (Member_Compare sl) (heap w) k M"
      using rp by (simp add: p_def M_def)
    from ins_pos_less [OF _ this] show "0 < Member_Compare sl k (keyof (heap w) (N ! j))"
      by (simp add: M_def)
  qed
  have fw: "first_with w' sl' (ins_at r (brk w) N) (brk w) k"
    unfolding first_with_def
  proof (intro exI [of _ r] conjI allI impI)
    show "r < length (ins_at r (brk w) N)" using rl by simp
    show "ins_at r (brk w) N ! r = brk w" using rl by (simp add: nth_ins_at)
    show "keyof (heap w') (brk w) = k" by (rule kn)
    fix j assume j: "j < r"
    then have e: "ins_at r (brk w) N ! j = N ! j" using rl by (simp add: nth_ins_at)
    have "N ! j \<in> set N" using j rl by simp
    then have "keyof (heap w') (N ! j) = keyof (heap w) (N ! j)" using keep by blast
    then show "0 < Member_Compare sl' k (keyof (heap w') (ins_at r (brk w) N ! j))"
      unfolding e c' using before j by simp
  qed
  show ?thesis using run sh' c' rl nN kn dn keep before fw by blast
qed

lemma SkipList_Search_first_with:
  assumes ok: "comparator_ok (Member_Compare sl)" and sh: "shape w sl N"
    and fw: "first_with w sl N n k"
  shows "\<exists>sl'. SkipList_Search w sl k = Some (Inr (sl', dataof (heap w) n))"
proof -
  define p where "p = ins_pos (Member_Compare sl) (heap w) k (header sl # N)"
  have a: "p \<le> length N" and b: "N ! (p - 1) = n"
    using first_with_ins_pos [OF ok fw] unfolding p_def by simp_all
  have kn: "keyof (heap w) n = k" using fw unfolding first_with_def by blast
  have z: "Member_Compare sl k k = 0" using ok unfolding comparator_ok_def by blast
  from SkipList_Search_shape [OF ok sh p_def]
  show ?thesis using a b kn z by auto
qed

lemma calls_Create_determ:
  assumes "comparator_ok c" and "world_ok w0"
    and "calls (SkipList_Create w0 c) cs = Some (Inr (w, sl))"
  shows "\<exists>N. shape w sl N \<and> ranked w sl N \<and> Member_Compare sl = c"
  using calls_Create_shape [OF assms(1,2), of cs] assms(3) by auto

section \<open>Properties of the program\<close>

subsection \<open>The spans and the ranks\<close>

text \<open>
  C1, read with the sum of the spans equal to the rank minus 1. After one insertion into a
  new list the only element has rank 1; its predecessor on level 0 is the header, whose span
  is 1. The sum of the spans up to and including the predecessor is 1, and not 0.
\<close>

theorem rank_consistency_counterexample:
  "bnd (calls (SkipList_Create world0 int_compare) [Insert (Some 5) (Some 1)]) (rank_sum 1 0)
     = ret (Some 1) \<and>
   bnd (calls (SkipList_Create world0 int_compare) [Insert (Some 5) (Some 1)]) (rank_sum 1 0)
     \<noteq> ret (Some (int 1 - 1))"
  by code_simp

text \<open>
  C1. In every state reached from a new list by SkipList\_Insert and SkipList\_Delete calls,
  with a comparator that orders the keys, every rank up to the length is the rank of an
  element, and for every element \<open>y\<close> of rank \<open>r\<close> (counted from 1) and every level \<open>i\<close> of
  \<open>y\<close>, the spans along the level-\<open>i\<close> chain from the header up to and including the
  predecessor of \<open>y\<close> sum to \<open>r\<close>. The header has index 0, and the sum of the spans is the
  index of \<open>y\<close>.
\<close>

theorem rank_consistency:
  assumes "comparator_ok c" and "world_ok w0"
  shows "\<exists>w sl. calls (SkipList_Create w0 c) cs = Some (Inr (w, sl)) \<and>
     (\<forall>r. r \<le> nat (length_sl sl) \<longrightarrow> element_at (heap w) (header sl) r \<noteq> None) \<and>
     (\<forall>r y i. 0 < r \<and> element_at (heap w) (header sl) r = Some y \<and> i < lv (heap w) y \<longrightarrow>
        span_sum (heap w) i (header sl) y 0 = Some (int r))"
proof -
  from calls_Create_shape [OF assms, of cs]
  obtain w sl N where run: "calls (SkipList_Create w0 c) cs = Some (Inr (w, sl))"
    and sh: "shape w sl N" and rk: "ranked w sl N" by blast
  define M where "M = header sl # N"
  define h where "h = heap w"
  have hs: "heap_shape (Member_Compare sl) h M" and Lb: "level sl \<le> MAX_LEVEL"
    and lowN: "\<forall>a \<in> set N. lv h a \<le> level sl"
    using sh by (simp_all add: shape_def M_def h_def)
  have sp: "spans h M (level sl)" and ln: "length_sl sl = int (length N)"
    using rk by (simp_all add: ranked_def M_def h_def)
  have hd: "header sl = M ! 0" by (simp add: M_def)
  have lenM: "length M = Suc (length N)" by (simp add: M_def)
  have el: "\<And>r. element_at h (header sl) r = (if r < length M then Some (M ! r) else None)"
    using element_at_shape [OF hs, of 0] hd lenM by simp
  have a: "\<forall>r. r \<le> nat (length_sl sl) \<longrightarrow> element_at h (header sl) r \<noteq> None"
    using el ln lenM by simp
  have b: "\<forall>r y i. 0 < r \<and> element_at h (header sl) r = Some y \<and> i < lv h y \<longrightarrow>
        span_sum h i (header sl) y 0 = Some (int r)"
  proof (intro allI impI)
    fix r y i assume x: "0 < r \<and> element_at h (header sl) r = Some y \<and> i < lv h y"
    then have r: "r < length M" "y = M ! r" using el [of r] by (auto split: if_splits)
    then have "y \<in> set N" using x lenM by (cases r) (auto simp: M_def)
    then have iL: "i < level sl" using lowN x by auto
    have top: "lv h (M ! 0) = MAX_LEVEL" using hs by (simp add: heap_shape_def)
    have i0: "i < lv h (M ! 0)" using top iL Lb by simp
    have ir: "i < lv h (M ! r)" using x r by simp
    from span_sum_shape [OF hs sp iL r(1) ir _ i0, of 0]
    show "span_sum h i (header sl) y 0 = Some (int r)" using hd r by simp
  qed
  show ?thesis using run a b unfolding h_def by blast
qed

text \<open>
  C1 at the list built by four insertions and one deletion: the element of rank 3, at the
  address 4, has three levels, and on each of them the spans up to it sum to 3.
\<close>

theorem rank_consistency_witness:
  "\<exists>w sl. calls (SkipList_Create world0 int_compare)
       [Insert (Some 10) (Some 1), Insert (Some 20) (Some 2), Insert (Some 30) (Some 3),
        Insert (Some 40) (Some 4), Delete (Some 10)] = Some (Inr (w, sl)) \<and>
     length_sl sl = 3 \<and>
     element_at (heap w) (header sl) 3 = Some 4 \<and> lv (heap w) 4 = 3 \<and>
     span_sum (heap w) 0 (header sl) 4 0 = Some 3 \<and>
     span_sum (heap w) 1 (header sl) 4 0 = Some 3 \<and>
     span_sum (heap w) 2 (header sl) 4 0 = Some 3"
proof -
  let ?cs = "[Insert (Some 10) (Some 1), Insert (Some 20) (Some 2), Insert (Some 30) (Some 3),
        Insert (Some 40) (Some 4), Delete (Some 10)] :: (int, int) call list"
  from rank_consistency [OF int_compare_ok world0_ok, of ?cs]
  obtain w sl where run: "calls (SkipList_Create world0 int_compare) ?cs = Some (Inr (w, sl))"
    and b: "\<forall>r y i. 0 < r \<and> element_at (heap w) (header sl) r = Some y \<and> i < lv (heap w) y \<longrightarrow>
        span_sum (heap w) i (header sl) y 0 = Some (int r)" by blast
  have "bnd (calls (SkipList_Create world0 int_compare) ?cs)
          (\<lambda>st. ret (length_sl (snd st), element_at (heap (fst st)) (header (snd st)) 3,
                      lv (heap (fst st)) 4))
      = ret (3, Some 4, 3)"
    by code_simp
  then have e: "length_sl sl = 3" "element_at (heap w) (header sl) 3 = Some 4"
    "lv (heap w) 4 = 3"
    unfolding run by (simp_all add: ret_def)
  have s: "\<And>i. i < 3 \<Longrightarrow> span_sum (heap w) i (header sl) 4 0 = Some 3"
    using b [rule_format, of 3 4] e by simp
  show ?thesis using run e s [of 0] s [of 1] s [of 2] by simp
qed

subsection \<open>Deletion of a key that occurs twice\<close>

text \<open>
  C2. SkipList\_Delete is documented to delete all members whose key matches and to return
  their number. On a list holding the key 5 twice it removes one member and returns 1: the
  other member with key 5 is still visited by SkipList\_Iterate and still found by
  SkipList\_Search.
\<close>

theorem SkipList_Delete_leaves_duplicate:
  "bnd (calls (SkipList_Create world0 int_compare)
          [Insert (Some 5) (Some 1), Insert (Some 5) (Some 2)]) (\<lambda>(w, sl).
     bnd (SkipList_Delete w sl (Some 5)) (\<lambda>(w', sl', d).
     bnd (SkipList_Iterate w' sl') (\<lambda>xs.
     bnd (SkipList_Search w' sl' (Some 5)) (\<lambda>(sl'', r). ret (d, xs, r)))))
   = Some (Inr (1, [(Some 5, Some 1)], Some 1))"
  by code_simp

subsection \<open>Access by rank\<close>

text \<open>
  C3. After the insertions of the keys 10, 20, 30, 40 into a new list, iteration visits
  them in this order, so the second element has key 20; SkipList\_Indexed\_Key at rank 2
  returns the key 10.
\<close>

theorem SkipList_Indexed_Key_wrong_rank:
  "bnd (calls (SkipList_Create world0 int_compare)
          [Insert (Some 10) (Some 1), Insert (Some 20) (Some 2),
           Insert (Some 30) (Some 3), Insert (Some 40) (Some 4)]) (\<lambda>(w, sl).
     bnd (SkipList_Iterate w sl) (\<lambda>xs.
     bnd (SkipList_Indexed_Key w sl 2) (\<lambda>(sl', r). ret (map fst xs, r))))
   = Some (Inr ([Some 10, Some 20, Some 30, Some 40], Some 10))"
  by code_simp

subsection \<open>The order of iteration\<close>

text \<open>
  C4. In every state reached from a new list by SkipList\_Insert and SkipList\_Delete calls,
  with a comparator that orders the keys, SkipList\_Iterate returns, and the pairs it visits
  are in non-decreasing order of their keys by the comparator of the container.
\<close>

theorem SkipList_Iterate_sorted:
  assumes "comparator_ok c" and "world_ok w0"
  shows "\<exists>w sl xs. calls (SkipList_Create w0 c) cs = Some (Inr (w, sl)) \<and>
     SkipList_Iterate w sl = Some (Inr xs) \<and>
     sorted_wrt (\<lambda>x y. c (fst x) (fst y) \<le> 0) xs"
proof -
  from calls_Create_shape [OF assms, of cs]
  obtain w sl N where run: "calls (SkipList_Create w0 c) cs = Some (Inr (w, sl))"
    and sh: "shape w sl N" and c: "Member_Compare sl = c" by blast
  let ?xs = "map (\<lambda>a. (keyof (heap w) a, dataof (heap w) a)) N"
  have it: "SkipList_Iterate w sl = Some (Inr ?xs)" using sh by (rule SkipList_Iterate_shape)
  have ks: "keys_sorted c (heap w) (header sl # N)" using shape_keys_sorted [OF sh] c by simp
  have "sorted_wrt (\<lambda>a b. c (keyof (heap w) a) (keyof (heap w) b) \<le> 0) N"
    unfolding sorted_wrt_iff_nth_less
  proof (intro allI impI)
    fix i j assume "i < j" "j < length N"
    then have "0 < Suc i \<and> Suc i < Suc j \<and> Suc j < length (header sl # N)" by simp
    then have "c (keyof (heap w) ((header sl # N) ! Suc i))
                 (keyof (heap w) ((header sl # N) ! Suc j)) \<le> 0"
      using ks unfolding keys_sorted_def by blast
    then show "c (keyof (heap w) (N ! i)) (keyof (heap w) (N ! j)) \<le> 0" by simp
  qed
  then have "sorted_wrt (\<lambda>x y. c (fst x) (fst y) \<le> 0) ?xs" by (simp add: sorted_wrt_map)
  then show ?thesis using run it by blast
qed

text \<open>C4 at the list built by four insertions and one deletion.\<close>

theorem SkipList_Iterate_sorted_witness:
  "\<exists>w sl xs. calls (SkipList_Create world0 int_compare)
       [Insert (Some 5) (Some 1), Insert (Some 3) (Some 2), Insert (Some 8) (Some 3),
        Insert (Some 1) (Some 4), Delete (Some 3)] = Some (Inr (w, sl)) \<and>
     SkipList_Iterate w sl = Some (Inr xs) \<and>
     sorted_wrt (\<lambda>x y. int_compare (fst x) (fst y) \<le> 0) xs"
  using SkipList_Iterate_sorted [OF int_compare_ok world0_ok] by blast

subsection \<open>The cache of the search by rank\<close>

text \<open>
  C5. In the same state the search by rank seeded from the container's cache and the
  cache-free search disagree at rank 2: the cached search leaves the header (address 0) in
  \<open>finger[0]\<close>, the cache-free search the first element (address 1).
\<close>

theorem Search_by_Index_cache_changes_result:
  "bnd (calls (SkipList_Create world0 int_compare)
          [Insert (Some 10) (Some 1), Insert (Some 20) (Some 2),
           Insert (Some 30) (Some 3), Insert (Some 40) (Some 4)]) (\<lambda>(w, sl).
     bnd (Search_by_Index (heap w) sl 2) (\<lambda>(sl', fg, found).
     bnd (Search_by_Index_nocache (heap w) sl 2) (\<lambda>(fg', found').
       ret (header sl, take 3 fg, found, take 3 fg', found'))))
   = Some (Inr (0, [Some 0, Some 0, Some 0], True, [Some 1, Some 0, Some 0], True))"
  by code_simp

subsection \<open>The level of a new element\<close>




subsection \<open>Insertion followed by search\<close>

text \<open>
  C7, read with any calls between the insertion and the search except a deletion of \<open>k\<close>.
  After the insertion of (5, 1) and then of (5, 2), with no deletion in between, the search
  for 5 returns 2 and not 1.
\<close>

theorem round_trip_counterexample:
  "bnd (calls (SkipList_Create world0 int_compare)
          [Insert (Some 5) (Some 1), Insert (Some 5) (Some 2)]) (search_for (Some 5))
     = ret (Some 2) \<and>
   bnd (calls (SkipList_Create world0 int_compare)
          [Insert (Some 5) (Some 1), Insert (Some 5) (Some 2)]) (search_for (Some 5))
     \<noteq> ret (Some 1)"
  by code_simp

text \<open>
  C7. In every state reached from a new list by SkipList\_Insert and SkipList\_Delete calls,
  with a comparator that orders the keys: after SkipList\_Insert of \<open>(k, v)\<close>, followed by
  any sequence of insertions and deletions none of which has a key that compares equal to
  \<open>k\<close>, SkipList\_Search for \<open>k\<close> returns \<open>v\<close>.
\<close>

theorem insert_search_round_trip:
  assumes "comparator_ok c" and "world_ok w0"
    and "\<forall>x \<in> set cs. c (call_key x) k \<noteq> 0"
  shows "\<exists>w sl sl'. calls (SkipList_Create w0 c) (pre @ Insert k v # cs) = Some (Inr (w, sl)) \<and>
     SkipList_Search w sl k = Some (Inr (sl', v))"
proof -
  from calls_Create_shape [OF assms(1,2), of pre]
  obtain w1 sl1 N1 where 1: "calls (SkipList_Create w0 c) pre = Some (Inr (w1, sl1))"
    and sh1: "shape w1 sl1 N1" and c1: "Member_Compare sl1 = c" by blast
  have ok1: "comparator_ok (Member_Compare sl1)" using c1 assms(1) by simp
  from SkipList_Insert_first_with [OF ok1 sh1 refl, where k = k and v = v]
  obtain w2 sl2 N2 where 2: "SkipList_Insert w1 sl1 k v = Some (Inr (w2, sl2))"
    and sh2: "shape w2 sl2 N2" and c2: "Member_Compare sl2 = Member_Compare sl1"
    and fw2: "first_with w2 sl2 N2 (brk w1) k" and d2: "dataof (heap w2) (brk w1) = v"
    by blast
  have ok2: "comparator_ok (Member_Compare sl2)" using c2 ok1 by simp
  have ne: "\<forall>x \<in> set cs. Member_Compare sl2 (call_key x) k \<noteq> 0"
    using assms(3) c1 c2 by simp
  from calls_first_with [OF ok2 sh2 fw2 ne]
  obtain w3 sl3 N3 where 3: "calls (w2, sl2) cs = Some (Inr (w3, sl3))"
    and sh3: "shape w3 sl3 N3" and c3: "Member_Compare sl3 = Member_Compare sl2"
    and fw3: "first_with w3 sl3 N3 (brk w1) k"
    and d3: "dataof (heap w3) (brk w1) = dataof (heap w2) (brk w1)" by blast
  have ok3: "comparator_ok (Member_Compare sl3)" using c3 ok2 by simp
  from SkipList_Search_first_with [OF ok3 sh3 fw3]
  obtain sl' where 4: "SkipList_Search w3 sl3 k = Some (Inr (sl', v))" using d3 d2 by auto
  have "calls (SkipList_Create w0 c) (pre @ Insert k v # cs) = Some (Inr (w3, sl3))"
    unfolding calls_append 1 using 2 3 by simp
  then show ?thesis using 4 by blast
qed

text \<open>
  C7 at a list that holds the key 5 already, with an insertion and two deletions of other
  keys between the insertion of (5, 50) and the search.
\<close>

theorem insert_search_round_trip_witness:
  "\<exists>w sl sl'. calls (SkipList_Create world0 int_compare)
       ([Insert (Some 5) (Some 1), Insert (Some 2) (Some 7)] @ Insert (Some 5) (Some 50) #
        [Insert (Some 3) (Some 30), Delete (Some 9), Delete (Some 2)]) = Some (Inr (w, sl)) \<and>
     SkipList_Search w sl (Some 5) = Some (Inr (sl', Some 50))"
proof -
  have "\<forall>x \<in> set [Insert (Some 3) (Some 30), Delete (Some 9), Delete (Some 2)].
      int_compare (call_key x) (Some 5) \<noteq> 0"
    by (simp add: call_key_def int_compare_def)
  from insert_search_round_trip [OF int_compare_ok world0_ok this] show ?thesis .
qed

subsection \<open>Ranks outside the list\<close>

text \<open>
  C8. On a list of one element the rank 2 is outside \<open>[1, length]\<close>. Search\_by\_Index
  reports it as found, and SkipList\_Indexed\_Key, SkipList\_Indexed\_Member and
  SkipList\_Indexed\_Update dereference the NULL pointer that follows the last element.
\<close>

theorem SkipList_Indexed_past_end_faults:
  "bnd (calls (SkipList_Create world0 int_compare) [Insert (Some 10) (Some 1)]) (\<lambda>(w, sl).
     ret (length_sl sl,
          bnd (Search_by_Index (heap w) sl 2) (\<lambda>(sl', fg, found). ret found),
          bnd (SkipList_Indexed_Key w sl 2) (\<lambda>(sl', r). ret r),
          bnd (SkipList_Indexed_Member w sl 2) (\<lambda>(sl', r). ret r),
          bnd (SkipList_Indexed_Update w sl 2 (Some 7)) (\<lambda>(w', sl'). ret ())))
   = Some (Inr (1, Some (Inr True), Some (Inl NullDeref), Some (Inl NullDeref),
                Some (Inl NullDeref)))"
  by code_simp

subsection \<open>Deletion of a key that does not occur\<close>

text \<open>
  C9. In every state reached from a new list by SkipList\_Insert and SkipList\_Delete calls,
  with a comparator that orders the keys, in which no member has a key that compares equal to
  \<open>k\<close>: SkipList\_Delete of \<open>k\<close> returns 0 and leaves the world as it is, so all elements
  with their keys, data, forward pointers and spans; the container keeps its comparator,
  header, level and length (the call rewrites the cache of the last search only), and
  iteration visits the same pairs in the same order.
\<close>

theorem SkipList_Delete_absent:
  assumes "comparator_ok c" and "world_ok w0"
    and "calls (SkipList_Create w0 c) cs = Some (Inr (w, sl))"
    and "SkipList_Iterate w sl = Some (Inr xs)"
    and "\<forall>x \<in> set xs. c (fst x) k \<noteq> 0"
  shows "\<exists>sl'. SkipList_Delete w sl k = Some (Inr (w, sl', 0)) \<and>
     Member_Compare sl' = Member_Compare sl \<and> header sl' = header sl \<and>
     level sl' = level sl \<and> length_sl sl' = length_sl sl \<and>
     SkipList_Iterate w sl' = Some (Inr xs)"
proof -
  from calls_Create_determ [OF assms(1,2,3)]
  obtain N where sh: "shape w sl N" and c: "Member_Compare sl = c" by blast
  have ok: "comparator_ok (Member_Compare sl)" using c assms(1) by simp
  define p where "p = ins_pos (Member_Compare sl) (heap w) k (header sl # N)"
  have xs: "xs = map (\<lambda>a. (keyof (heap w) a, dataof (heap w) a)) N"
    using SkipList_Iterate_shape [OF sh] assms(4) by simp
  have pb: "0 < p" unfolding p_def by (simp add: ins_pos_def)
  have miss: "\<not> (p \<le> length N \<and> Member_Compare sl (keyof (heap w) (N ! (p - 1))) k = 0)"
  proof
    assume a: "p \<le> length N \<and> Member_Compare sl (keyof (heap w) (N ! (p - 1))) k = 0"
    then have "p - 1 < length N" using pb by linarith
    then have "N ! (p - 1) \<in> set N" by simp
    then have "(\<lambda>a. (keyof (heap w) a, dataof (heap w) a)) (N ! (p - 1))
        \<in> (\<lambda>a. (keyof (heap w) a, dataof (heap w) a)) ` set N" by (rule imageI)
    then have "(keyof (heap w) (N ! (p - 1)), dataof (heap w) (N ! (p - 1))) \<in> set xs"
      unfolding xs by simp
    then have "c (keyof (heap w) (N ! (p - 1))) k \<noteq> 0" using assms(5) by fastforce
    then show False using a c by simp
  qed
  from SkipList_Delete_shape [OF ok sh p_def]
  obtain w' sl' d where run: "SkipList_Delete w sl k = Some (Inr (w', sl', d))"
    and keep: "Member_Compare sl' = Member_Compare sl" "header sl' = header sl"
    and rest: "d = 0 \<and> w' = w \<and> shape w sl' N \<and> (ranked w sl N \<longrightarrow> ranked w sl' N) \<and>
           level sl' = level sl \<and> length_sl sl' = length_sl sl"
    using miss by (auto split: if_splits)
  have "SkipList_Iterate w sl' = Some (Inr xs)"
    unfolding xs using rest by (intro SkipList_Iterate_shape) simp
  then show ?thesis using run keep rest by auto
qed

text \<open>C9 at the list with the keys 1, 2, 9 and the deletion of the key 7.\<close>

theorem SkipList_Delete_absent_witness:
  "\<exists>w sl sl'. calls (SkipList_Create world0 int_compare)
       [Insert (Some 2) (Some 20), Insert (Some 1) (Some 10), Insert (Some 9) (Some 90)]
       = Some (Inr (w, sl)) \<and>
     SkipList_Iterate w sl = Some (Inr [(Some 1, Some 10), (Some 2, Some 20), (Some 9, Some 90)]) \<and>
     SkipList_Delete w sl (Some 7) = Some (Inr (w, sl', 0)) \<and>
     Member_Compare sl' = Member_Compare sl \<and> header sl' = header sl \<and>
     level sl' = level sl \<and> length_sl sl' = length_sl sl \<and>
     SkipList_Iterate w sl' = Some (Inr [(Some 1, Some 10), (Some 2, Some 20), (Some 9, Some 90)])"
proof -
  let ?cs = "[Insert (Some 2) (Some 20), Insert (Some 1) (Some 10), Insert (Some 9) (Some 90)]"
  let ?xs = "[(Some 1, Some 10), (Some 2, Some 20), (Some 9, Some 90)] :: (int option \<times> int option) list"
  from calls_Create_shape [OF int_compare_ok world0_ok, of ?cs]
  obtain w sl where run: "calls (SkipList_Create world0 int_compare) ?cs = Some (Inr (w, sl))"
    by blast
  have "bnd (calls (SkipList_Create world0 int_compare) ?cs) (\<lambda>st. SkipList_Iterate (fst st) (snd st))
      = Some (Inr ?xs)"
    by code_simp
  then have it: "SkipList_Iterate w sl = Some (Inr ?xs)" unfolding run by simp
  have ab: "\<forall>x \<in> set ?xs. int_compare (fst x) (Some 7) \<noteq> 0" by (simp add: int_compare_def)
  from SkipList_Delete_absent [OF int_compare_ok world0_ok run it ab]
  show ?thesis using run it by blast
qed

subsection \<open>Insertion of a key that occurs already\<close>

text \<open>
  C10. In every state reached from a new list by SkipList\_Insert and SkipList\_Delete calls,
  with a comparator that orders the keys, SkipList\_Insert of \<open>(k, v)\<close> puts the new pair
  at a position \<open>r\<close> of the iteration order such that every pair in front of it has a key
  strictly less than \<open>k\<close> and no pair from \<open>r\<close> on has one: the new pair stands in front of
  every member whose key is equal to \<open>k\<close>. The other pairs keep their order, and
  SkipList\_Search for \<open>k\<close> right afterwards returns \<open>v\<close>.
\<close>

theorem SkipList_Insert_before_equal:
  assumes "comparator_ok c" and "world_ok w0"
    and "calls (SkipList_Create w0 c) cs = Some (Inr (w, sl))"
    and "SkipList_Iterate w sl = Some (Inr xs)"
  shows "\<exists>w' sl' sl'' r. SkipList_Insert w sl k v = Some (Inr (w', sl')) \<and>
     r \<le> length xs \<and>
     SkipList_Iterate w' sl' = Some (Inr (take r xs @ (k, v) # drop r xs)) \<and>
     (\<forall>j < r. 0 < c k (fst (xs ! j))) \<and>
     (\<forall>j. r \<le> j \<and> j < length xs \<longrightarrow> c k (fst (xs ! j)) \<le> 0) \<and>
     SkipList_Search w' sl' k = Some (Inr (sl'', v))"
proof -
  from calls_Create_determ [OF assms(1,2,3)]
  obtain N where sh: "shape w sl N" and c: "Member_Compare sl = c" by blast
  have ok: "comparator_ok (Member_Compare sl)" using c assms(1) by simp
  let ?f = "\<lambda>a. (keyof (heap w) a, dataof (heap w) a)"
  have xs: "xs = map ?f N" using SkipList_Iterate_shape [OF sh] assms(4) by simp
  define r where "r = ins_pos (Member_Compare sl) (heap w) k (header sl # N) - 1"
  from SkipList_Insert_first_with [OF ok sh r_def, where v = v]
  obtain w' sl' where run: "SkipList_Insert w sl k v = Some (Inr (w', sl'))"
    and sh': "shape w' sl' (ins_at r (brk w) N)"
    and c': "Member_Compare sl' = Member_Compare sl"
    and rl: "r \<le> length N" and nN: "brk w \<notin> set N"
    and kn: "keyof (heap w') (brk w) = k" and dn: "dataof (heap w') (brk w) = v"
    and keep: "\<forall>a \<in> set N. keyof (heap w') a = keyof (heap w) a \<and>
                    dataof (heap w') a = dataof (heap w) a"
    and before: "\<forall>j < r. 0 < Member_Compare sl k (keyof (heap w) (N ! j))"
    and fw: "first_with w' sl' (ins_at r (brk w) N) (brk w) k"
    by blast
  let ?g = "\<lambda>a. (keyof (heap w') a, dataof (heap w') a)"
  have mp: "map ?g N = map ?f N" using keep by (intro map_cong) auto
  have "map ?g (ins_at r (brk w) N) = ins_at r (k, v) (map ?f N)"
    unfolding map_ins_at mp by (simp add: kn dn)
  then have it: "SkipList_Iterate w' sl' = Some (Inr (take r xs @ (k, v) # drop r xs))"
    using SkipList_Iterate_shape [OF sh'] by (simp add: xs ins_at_def)
  have b: "\<forall>j < r. 0 < c k (fst (xs ! j))" using before rl c by (simp add: xs)
  have a: "\<forall>j. r \<le> j \<and> j < length xs \<longrightarrow> c k (fst (xs ! j)) \<le> 0"
  proof (intro allI impI)
    fix j assume j: "r \<le> j \<and> j < length xs"
    then have "ins_pos (Member_Compare sl) (heap w) k (header sl # N) \<le> Suc j"
      and "Suc j < length (header sl # N)" unfolding r_def xs by (simp, linarith, simp)
    from ins_pos_geq [OF ok shape_keys_sorted [OF sh] this]
    have "\<not> 0 < c k (keyof (heap w) (N ! j))" using c by simp
    then show "c k (fst (xs ! j)) \<le> 0" using j by (simp add: xs)
  qed
  have ok': "comparator_ok (Member_Compare sl')" using c' ok by simp
  from SkipList_Search_first_with [OF ok' sh' fw]
  obtain sl'' where "SkipList_Search w' sl' k = Some (Inr (sl'', v))" using dn by auto
  then show ?thesis using run rl it b a by (auto simp: xs)
qed

text \<open>C10 at a list that holds the key 5 twice: the search returns the value inserted last.\<close>

theorem SkipList_Insert_before_equal_witness:
  "\<exists>w sl w' sl' sl'' r. calls (SkipList_Create world0 int_compare)
       [Insert (Some 5) (Some 1), Insert (Some 2) (Some 7), Insert (Some 5) (Some 2),
        Insert (Some 8) (Some 3)] = Some (Inr (w, sl)) \<and>
     SkipList_Iterate w sl =
       Some (Inr [(Some 2, Some 7), (Some 5, Some 2), (Some 5, Some 1), (Some 8, Some 3)]) \<and>
     SkipList_Insert w sl (Some 5) (Some 9) = Some (Inr (w', sl')) \<and>
     r \<le> length [(Some (2::int), Some (7::int)), (Some 5, Some 2), (Some 5, Some 1),
                 (Some 8, Some 3)] \<and>
     SkipList_Iterate w' sl' =
       Some (Inr (take r [(Some 2, Some 7), (Some 5, Some 2), (Some 5, Some 1), (Some 8, Some 3)]
                  @ (Some 5, Some 9)
                  # drop r [(Some 2, Some 7), (Some 5, Some 2), (Some 5, Some 1), (Some 8, Some 3)])) \<and>
     SkipList_Search w' sl' (Some 5) = Some (Inr (sl'', Some 9))"
proof -
  let ?cs = "[Insert (Some 5) (Some 1), Insert (Some 2) (Some 7), Insert (Some 5) (Some 2),
        Insert (Some 8) (Some 3)]"
  let ?xs = "[(Some 2, Some 7), (Some 5, Some 2), (Some 5, Some 1), (Some 8, Some 3)]
      :: (int option \<times> int option) list"
  from calls_Create_shape [OF int_compare_ok world0_ok, of ?cs]
  obtain w sl where run: "calls (SkipList_Create world0 int_compare) ?cs = Some (Inr (w, sl))"
    by blast
  have "bnd (calls (SkipList_Create world0 int_compare) ?cs) (\<lambda>st. SkipList_Iterate (fst st) (snd st))
      = Some (Inr ?xs)"
    by code_simp
  then have it: "SkipList_Iterate w sl = Some (Inr ?xs)" unfolding run by simp
  from SkipList_Insert_before_equal [OF int_compare_ok world0_ok run it,
      where k = "Some 5" and v = "Some 9"]
  show ?thesis using run it by blast
qed

end
